theory Spec2Isabelle
  imports Complex_Main "HOL-Library.Multiset"
begin

section \<open>Python strings\<close>

text \<open>
  A Python \<open>str\<close> is a sequence of Unicode code points. The analyzer tests code points
  against the range U+4E00..U+9FFF, which an 8-bit \<open>char\<close> cannot hold, so a string is
  modelled as the list of its code points. \<open>lit\<close> turns an ASCII literal into such a list.
\<close>

type_synonym str = "nat list"

definition lit :: "string \<Rightarrow> str" where
  "lit s = map of_char s"

text \<open>
  \<open>str.isspace\<close>, which is also the class \<open>\s\<close> of \<open>re\<close> on \<open>str\<close> patterns and the
  separator set of \<open>str.split()\<close> and \<open>str.strip()\<close>: the code points CPython lists as
  whitespace.
\<close>

definition isspace :: "nat \<Rightarrow> bool" where
  "isspace c =
     (c \<in> set [0x09, 0x0A, 0x0B, 0x0C, 0x0D, 0x1C, 0x1D, 0x1E, 0x1F, 0x20, 0x85, 0xA0,
               0x1680, 0x2028, 0x2029, 0x202F, 0x205F, 0x3000]
      \<or> (0x2000 \<le> c \<and> c \<le> 0x200A))"

text \<open>
  The class \<open>\d\<close> of \<open>re\<close> on \<open>str\<close> patterns: the Unicode decimal digits (category Nd),
  here the table of Unicode 14 (CPython 3.11) as blocks (first code point, length).
\<close>

definition decimal_blocks :: "(nat \<times> nat) list" where
  "decimal_blocks =
     [(0x30, 10), (0x660, 10), (0x6F0, 10), (0x7C0, 10), (0x966, 10), (0x9E6, 10),
      (0xA66, 10), (0xAE6, 10), (0xB66, 10), (0xBE6, 10), (0xC66, 10), (0xCE6, 10),
      (0xD66, 10), (0xDE6, 10), (0xE50, 10), (0xED0, 10), (0xF20, 10), (0x1040, 10),
      (0x1090, 10), (0x17E0, 10), (0x1810, 10), (0x1946, 10), (0x19D0, 10), (0x1A80, 10),
      (0x1A90, 10), (0x1B50, 10), (0x1BB0, 10), (0x1C40, 10), (0x1C50, 10), (0xA620, 10),
      (0xA8D0, 10), (0xA900, 10), (0xA9D0, 10), (0xA9F0, 10), (0xAA50, 10), (0xABF0, 10),
      (0xFF10, 10), (0x104A0, 10), (0x10D30, 10), (0x11066, 10), (0x110F0, 10),
      (0x11136, 10), (0x111D0, 10), (0x112F0, 10), (0x11450, 10), (0x114D0, 10),
      (0x11650, 10), (0x116C0, 10), (0x11730, 10), (0x118E0, 10), (0x11950, 10),
      (0x11C50, 10), (0x11D50, 10), (0x11DA0, 10), (0x16A60, 10), (0x16AC0, 10),
      (0x16B50, 10), (0x1D7CE, 50), (0x1E140, 10), (0x1E2F0, 10), (0x1E950, 10),
      (0x1FBF0, 10)]"

definition isdecimal :: "nat \<Rightarrow> bool" where
  "isdecimal c = list_ex (\<lambda>(z, n). z \<le> c \<and> c < z + n) decimal_blocks"

text \<open>\<open>s.strip()\<close>: whitespace removed at both ends.\<close>

definition strip :: "str \<Rightarrow> str" where
  "strip s = rev (dropWhile isspace (rev (dropWhile isspace s)))"

text \<open>
  \<open>s.split()\<close>: the maximal runs of non-whitespace, in order. \<open>split_from cur s\<close> scans
  \<open>s\<close> with the token \<open>cur\<close> already begun.
\<close>

fun split_from :: "str \<Rightarrow> str \<Rightarrow> str list" where
  "split_from cur [] = (if cur = [] then [] else [cur])"
| "split_from cur (c # cs) =
     (if isspace c then (if cur = [] then split_from [] cs else cur # split_from [] cs)
      else split_from (cur @ [c]) cs)"

definition split :: "str \<Rightarrow> str list" where
  "split s = split_from [] s"

text \<open>\<open>' '.join(parts)\<close>.\<close>

fun join :: "str list \<Rightarrow> str" where
  "join [] = []"
| "join [p] = p"
| "join (p # q # ps) = p @ [0x20] @ join (q # ps)"

text \<open>
  \<open>s.lower()\<close>. The program only compares a lowered string with ASCII literals (the
  part-of-speech markers, and \<open>'q'\<close>). The mapping is written out for every code point
  whose lowercase form contains an ASCII character: \<open>A\<close>..\<open>Z\<close>, U+0130 (lowered to
  \<open>i\<close> followed by U+0307) and U+212A (lowered to \<open>k\<close>). Every other code point is lowered
  by Python to non-ASCII code points only; it is left as it is here, which changes no
  comparison with an ASCII literal.
\<close>

definition lower_cp :: "nat \<Rightarrow> str" where
  "lower_cp c =
     (if 0x41 \<le> c \<and> c \<le> 0x5A then [c + 0x20]
      else if c = 0x130 then [0x69, 0x307]
      else if c = 0x212A then [0x6B]
      else [c])"

definition lower :: "str \<Rightarrow> str" where
  "lower s = concat (map lower_cp s)"

section \<open>The vocabulary analyzer (\<open>loutwit.py\<close>)\<close>

record vocab_entry =
  line_number :: int
  original_line :: str
  selik_word :: str
  chinese_meaning :: str
  part_of_speech :: str
  is_defined :: bool
  file_path :: str

definition VocabEntry :: "int \<Rightarrow> str \<Rightarrow> str \<Rightarrow> str \<Rightarrow> str \<Rightarrow> bool \<Rightarrow> str \<Rightarrow> vocab_entry" where
  "VocabEntry n l w m p d f =
     \<lparr>line_number = n, original_line = l, selik_word = w, chinese_meaning = m,
      part_of_speech = p, is_defined = d, file_path = f\<rparr>"

text \<open>\<open>_contains_chinese\<close>: some code point of the text lies in U+4E00..U+9FFF.\<close>

definition contains_chinese :: "str \<Rightarrow> bool" where
  "contains_chinese text = list_ex (\<lambda>c. 0x4E00 \<le> c \<and> c \<le> 0x9FFF) text"

definition pos_markers :: "str list" where
  "pos_markers = map lit [''v.'', ''n.'', ''adj.'', ''adv.'', ''prep.'', ''conj.'',
                          ''interj.'', ''pron.'']"

text \<open>\<open>_is_pos_marker\<close>: \<open>text.lower() in pos_markers or text in pos_markers\<close>.\<close>

definition is_pos_marker :: "str \<Rightarrow> bool" where
  "is_pos_marker text = (lower text \<in> set pos_markers \<or> text \<in> set pos_markers)"

text \<open>
  The specification's reading of \<open>_is_pos_marker\<close>, a case-insensitive match: the
  text with its ASCII capitals lowered is one of the markers. (Compared with the code's
  test in the lemma \<open>is_pos_marker_ascii\<close>.)
\<close>

definition ascii_lower :: "nat \<Rightarrow> nat" where
  "ascii_lower c = (if 0x41 \<le> c \<and> c \<le> 0x5A then c + 0x20 else c)"

text \<open>
  \<open>re.sub(r'^\s*\d+\.\s*', '', s)\<close>. The pattern is anchored at the start of the string
  (no MULTILINE flag), so it matches at most once. No code point is both whitespace and a
  digit, and the full stop is neither, so backtracking never finds a match the greedy
  scan misses: the match is the leading whitespace, all the digits after it (at least
  one), a full stop, and all the whitespace after that. Without a match the string is
  returned as it is.
\<close>

definition sub_number_prefix :: "str \<Rightarrow> str" where
  "sub_number_prefix s =
     (let s1 = dropWhile isspace s;
          digits = takeWhile isdecimal s1;
          s2 = dropWhile isdecimal s1
      in case s2 of
           [] \<Rightarrow> s
         | c # s3 \<Rightarrow> if digits \<noteq> [] \<and> c = 0x2E then dropWhile isspace s3 else s)"

definition clean :: "str \<Rightarrow> str" where
  "clean line = sub_number_prefix (strip line)"

text \<open>
  The \<open>for i, part in enumerate(parts)\<close> loop of \<open>parse_line\<close>: the index of the first
  part that contains a Chinese character, \<open>None\<close> when there is none.
\<close>

fun chinese_start :: "str list \<Rightarrow> nat option" where
  "chinese_start [] = None"
| "chinese_start (p # ps) =
     (if contains_chinese p then Some 0 else map_option Suc (chinese_start ps))"

definition parse_line :: "str \<Rightarrow> int \<Rightarrow> str \<Rightarrow> vocab_entry" where
  "parse_line line n fp =
     (let clean_line = clean line in
      if clean_line = [] then VocabEntry n line [] [] [] False fp
      else
        let parts = split clean_line in
        if length parts = 0 then VocabEntry n line [] [] [] False fp
        else
          case chinese_start parts of
            None \<Rightarrow> VocabEntry n line [] clean_line [] False fp
          | Some i \<Rightarrow>
              if i = 0 then
                (let last_part = last parts in
                 if is_pos_marker last_part
                 then VocabEntry n line [] (join (butlast parts)) last_part False fp
                 else VocabEntry n line [] clean_line [] False fp)
              else
                (let selik_parts = take i parts;
                     meaning_parts = drop i parts
                 in if length meaning_parts > 1 \<and> is_pos_marker (last meaning_parts)
                    then VocabEntry n line (join selik_parts) (join (butlast meaning_parts))
                           (last meaning_parts) True fp
                    else VocabEntry n line (join selik_parts) (join meaning_parts) [] True fp))"

subsection \<open>Loading and analysing entries\<close>

text \<open>
  The state of a \<open>VocabAnalyzer\<close>. The two duplicate tables are dictionaries from a key
  to the list of entries with that key; they are kept as association lists in insertion
  order, as a Python \<open>dict\<close> is.
\<close>

record analyzer =
  entries :: "vocab_entry list"
  selik_duplicates :: "(str \<times> vocab_entry list) list"
  meaning_duplicates :: "((str \<times> str) \<times> vocab_entry list) list"
  undefined_entries :: "vocab_entry list"

text \<open>\<open>__init__\<close>: no entries, empty tables.\<close>

definition new_analyzer :: analyzer where
  "new_analyzer = \<lparr>entries = [], selik_duplicates = [], meaning_duplicates = [],
                    undefined_entries = []\<rparr>"

text \<open>
  \<open>d[k].append(e)\<close> on a \<open>defaultdict(list)\<close>: a missing key is created at the end
  with the one-element list, a present key has \<open>e\<close> added at the end of its list.
\<close>

fun dd_append :: "'k \<Rightarrow> 'v \<Rightarrow> ('k \<times> 'v list) list \<Rightarrow> ('k \<times> 'v list) list" where
  "dd_append k e [] = [(k, [e])]"
| "dd_append k e ((k', es) # d) =
     (if k' = k then (k', es @ [e]) # d else (k', es) # dd_append k e d)"

text \<open>\<open>enumerate(lines, n)\<close>.\<close>

fun enumerate_from :: "int \<Rightarrow> 'a list \<Rightarrow> (int \<times> 'a) list" where
  "enumerate_from n [] = []"
| "enumerate_from n (x # xs) = (n, x) # enumerate_from (n + 1) xs"

text \<open>
  \<open>load_file\<close> on a file that opens and decodes, given as the list of its lines: every
  line that is not blank is parsed, with its 1-based line number, and appended to the
  entries. (A file that cannot be read adds nothing.)
\<close>

definition load_file :: "str \<Rightarrow> str list \<Rightarrow> analyzer \<Rightarrow> analyzer" where
  "load_file fp lines a =
     a\<lparr>entries := entries a @
          map (\<lambda>(line_num, line). parse_line line line_num fp)
            (filter (\<lambda>(line_num, line). strip line \<noteq> []) (enumerate_from 1 lines))\<rparr>"

text \<open>
  \<open>analyze\<close>. The defined entries with a non-empty word are filed under their word,
  all defined entries under the pair (meaning, part of speech); both tables are then cut
  down to the keys with more than one entry.
\<close>

definition analyze :: "analyzer \<Rightarrow> analyzer" where
  "analyze a =
     (let defined_entries = filter is_defined (entries a);
          undefined = filter (\<lambda>e. \<not> is_defined e) (entries a);
          sd = fold (\<lambda>entry d. if selik_word entry \<noteq> []
                                 then dd_append (selik_word entry) entry d else d)
                 defined_entries (selik_duplicates a);
          md = fold (\<lambda>entry d. dd_append (chinese_meaning entry, part_of_speech entry) entry d)
                 defined_entries (meaning_duplicates a)
      in a\<lparr>undefined_entries := undefined,
           selik_duplicates := filter (\<lambda>(k, v). length v > 1) sd,
           meaning_duplicates := filter (\<lambda>(k, v). length v > 1) md\<rparr>)"

text \<open>
  The two loops of \<open>analyze\<close> are instances of one fold, named here for the proofs:
  the entries satisfying \<open>P\<close> are filed under their key \<open>f e\<close>.
\<close>

definition group_into :: "('e \<Rightarrow> bool) \<Rightarrow> ('e \<Rightarrow> 'k) \<Rightarrow> 'e list \<Rightarrow> ('k \<times> 'e list) list \<Rightarrow> ('k \<times> 'e list) list" where
  "group_into P f es d = fold (\<lambda>e d. if P e then dd_append (f e) e d else d) es d"

text \<open>A four-line vocabulary file: two entries for \<open>mira\<close>, one undefined line.\<close>

definition sample_lines :: "str list" where
  "sample_lines =
     [lit ''1. mira '' @ [0x6708] @ lit '' n.'',
      lit ''2. mira '' @ [0x770B] @ lit '' v.'',
      lit ''3. sola '' @ [0x770B] @ lit '' n.'',
      lit ''4. '' @ [0x5FEB, 0x901F] @ lit '' adj.'']"

section \<open>The quiz tool (\<open>louttit.py\<close>)\<close>

text \<open>
  A performance record is the dictionary \<open>{"asked": int, "correct": int, "meaning": str}\<close>;
  the key \<open>meaning\<close> may be missing (\<open>select_words\<close> reads it with a default).
  Python integers are unbounded.
\<close>

record stats =
  asked :: int
  correct :: int
  meaning :: "str option"

text \<open>
  Dictionaries keep their insertion order, and \<open>select_words\<close> iterates over them, so
  the vocabulary (word to meaning) and the memory (word to record) are association lists.
  \<open>d.get(k)\<close> is \<open>map_of d k\<close>; \<open>dict_set\<close> is \<open>d[k] = v\<close>: a present key keeps its
  place, a new key goes to the end.
\<close>

type_synonym vocab = "(str \<times> str) list"

type_synonym memory = "(str \<times> stats) list"

fun dict_set :: "'k \<Rightarrow> 'v \<Rightarrow> ('k \<times> 'v) list \<Rightarrow> ('k \<times> 'v) list" where
  "dict_set k v [] = [(k, v)]"
| "dict_set k v ((k', v') # d) = (if k' = k then (k', v) # d else (k', v') # dict_set k v d)"

datatype py_error = OverflowError

subsection \<open>Float arithmetic\<close>

text \<open>
  The error rate is a Python \<open>float\<close> (IEEE binary64). A finite float is modelled as the
  real number it denotes, and an arithmetic operation as the exact operation followed by
  rounding to the nearest float. The rounding function is the parameter \<open>fl\<close> of the
  definitions below: nothing is assumed of it, so what is proved holds for binary64
  rounding as for any other.

  \<open>a / b\<close> on integers is the correctly rounded quotient; CPython raises
  \<open>OverflowError\<close> when it rounds to a magnitude of \<open>2^1024\<close> or more, that is when the
  exact quotient reaches \<open>2^1024 - 2^970\<close>, halfway between the largest float and
  \<open>2^1024\<close>. The caller guards against \<open>b = 0\<close>.
\<close>

type_synonym rounding = "real \<Rightarrow> real"

definition float_overflow :: real where
  "float_overflow = 2 ^ 1024 - 2 ^ 970"

definition int_truediv :: "rounding \<Rightarrow> int \<Rightarrow> int \<Rightarrow> py_error + real" where
  "int_truediv fl a b =
     (if \<bar>real_of_int a / real_of_int b\<bar> \<ge> float_overflow then Inl OverflowError
      else Inr (fl (real_of_int a / real_of_int b)))"

text \<open>
  \<open>1.0 - x\<close> for a float \<open>x\<close>. (The difference of \<open>1.0\<close> and a finite float is within
  the float range, so no infinity arises.)
\<close>

definition one_minus :: "rounding \<Rightarrow> real \<Rightarrow> real" where
  "one_minus fl x = fl (1 - x)"

subsection \<open>Selecting the quiz list\<close>

text \<open>
  The loop of the file mode: for each word of the vocabulary, in order, the record is
  \<open>memory.get(w, {'asked': 0, 'correct': 0})\<close> and the item is
  \<open>(1.0 - (correct/asked if asked>0 else 0), w, meaning)\<close>.
\<close>

definition default_stats :: stats where
  "default_stats = \<lparr>asked = 0, correct = 0, meaning = None\<rparr>"

fun file_items :: "rounding \<Rightarrow> vocab \<Rightarrow> memory \<Rightarrow> py_error + (real \<times> str \<times> str) list" where
  "file_items fl [] memory = Inr []"
| "file_items fl ((w, m) # vocab) memory =
     (let st = (case map_of memory w of None \<Rightarrow> default_stats | Some st \<Rightarrow> st) in
      case (if asked st > 0 then int_truediv fl (correct st) (asked st) else Inr 0) of
        Inl e \<Rightarrow> Inl e
      | Inr q \<Rightarrow>
          (case file_items fl vocab memory of
             Inl e \<Rightarrow> Inl e
           | Inr items \<Rightarrow> Inr ((one_minus fl q, w, m) # items)))"

text \<open>
  The loop of the memory-only mode: the records with \<open>asked>0 and correct<asked\<close>, each
  with \<open>stats.get('meaning', '')\<close> and the rate \<open>1.0 - correct/asked\<close>.
\<close>

fun memory_items :: "rounding \<Rightarrow> memory \<Rightarrow> py_error + (real \<times> str \<times> str) list" where
  "memory_items fl [] = Inr []"
| "memory_items fl ((w, st) # memory) =
     (if asked st > 0 \<and> correct st < asked st then
        (case int_truediv fl (correct st) (asked st) of
           Inl e \<Rightarrow> Inl e
         | Inr q \<Rightarrow>
             (case memory_items fl memory of
                Inl e \<Rightarrow> Inl e
              | Inr items \<Rightarrow>
                  Inr ((one_minus fl q, w, (case meaning st of None \<Rightarrow> [] | Some m \<Rightarrow> m))
                       # items)))
      else memory_items fl memory)"

text \<open>\<open>items[:l]\<close>: a negative \<open>l\<close> counts from the end.\<close>

definition slice_to :: "int \<Rightarrow> 'a list \<Rightarrow> 'a list" where
  "slice_to l xs = (if l \<ge> 0 then take (nat l) xs else take (length xs - nat (- l)) xs)"

text \<open>
  \<open>items.sort(reverse=True, key=lambda x: x[0])\<close>: Python's sort is stable, also with
  \<open>reverse=True\<close> (items with equal keys keep their order). That is the stable
  insertion sort \<open>sort_key\<close> on the negated key.
\<close>

definition sort_reverse :: "(real \<times> 'a) list \<Rightarrow> (real \<times> 'a) list" where
  "sort_reverse items = sort_key (\<lambda>x. - fst x) items"

text \<open>
  \<open>select_words(vocab, memory, limit=None)\<close>. \<open>if vocab\<close> is true of a non-empty
  dictionary; \<open>if limit\<close> is false of \<open>None\<close> and of \<open>0\<close>.
\<close>

definition select_words ::
  "rounding \<Rightarrow> vocab \<Rightarrow> memory \<Rightarrow> int option \<Rightarrow> py_error + (str \<times> str) list" where
  "select_words fl vocab memory limit =
     (case (if vocab \<noteq> [] then file_items fl vocab memory else memory_items fl memory) of
        Inl e \<Rightarrow> Inl e
      | Inr items \<Rightarrow>
          (let sorted_items = sort_reverse items;
               cut = (case limit of
                        None \<Rightarrow> sorted_items
                      | Some l \<Rightarrow> if l \<noteq> 0 then slice_to l sorted_items else sorted_items)
           in Inr (map snd cut)))"

subsection \<open>The quiz loop\<close>

text \<open>
  The body of the loop after the quit test:
  \<open>stats = memory.setdefault(w, {'asked': 0, 'correct': 0, 'meaning': m})\<close>, then
  \<open>stats['asked'] += 1\<close>, and \<open>stats['correct'] += 1\<close> when \<open>ans == w\<close>. The record is
  changed in place, or created at the end of the memory.
\<close>

definition record_answer :: "str \<Rightarrow> str \<Rightarrow> str \<Rightarrow> memory \<Rightarrow> memory" where
  "record_answer w m ans memory =
     (let st = (case map_of memory w of
                  None \<Rightarrow> \<lparr>asked = 0, correct = 0, meaning = Some m\<rparr>
                | Some st \<Rightarrow> st);
          st1 = st\<lparr>asked := asked st + 1\<rparr>;
          st2 = (if ans = w then st1\<lparr>correct := correct st1 + 1\<rparr> else st1)
      in dict_set w st2 memory)"

text \<open>
  \<open>quiz_loop\<close> on the module's \<open>memory\<close>, passed in and returned. The lines typed by the
  user are the list \<open>inputs\<close>; \<open>input()\<close> at the end of the input raises \<open>EOFError\<close>,
  which nothing catches. The result is how the loop ended, the items whose prompt was
  shown, and the memory at that point. (An interrupt from the keyboard is not an input
  line and is not part of this model.)
\<close>

datatype ending = Finished | Quit | EOFError

fun quiz_loop :: "(str \<times> str) list \<Rightarrow> str list \<Rightarrow> memory \<Rightarrow> ending \<times> (str \<times> str) list \<times> memory" where
  "quiz_loop [] inputs memory = (Finished, [], memory)"
| "quiz_loop ((w, m) # words) [] memory = (EOFError, [(w, m)], memory)"
| "quiz_loop ((w, m) # words) (line # inputs) memory =
     (let ans = strip line in
      if lower ans = lit ''q'' then (Quit, [(w, m)], memory)
      else
        (case quiz_loop words inputs (record_answer w m ans memory) of
           (e, shown, memory') \<Rightarrow> (e, (w, m) # shown, memory')))"

definition final_memory :: "ending \<times> (str \<times> str) list \<times> memory \<Rightarrow> memory" where
  "final_memory r = snd (snd r)"

text \<open>
  The record that \<open>record_answer\<close> leaves for the prompted word, field by field.
\<close>

definition answered :: "str \<Rightarrow> str \<Rightarrow> str \<Rightarrow> memory \<Rightarrow> stats" where
  "answered w m ans memory =
     \<lparr>asked = (case map_of memory w of None \<Rightarrow> 0 | Some st \<Rightarrow> asked st) + 1,
      correct = (case map_of memory w of None \<Rightarrow> 0 | Some st \<Rightarrow> correct st)
                  + (if ans = w then 1 else 0),
      meaning = (case map_of memory w of None \<Rightarrow> Some m | Some st \<Rightarrow> meaning st)\<rparr>"

text \<open>A memory with one record, and a quiz list of three words, the last one \<open>q\<close>.\<close>

definition sample_memory :: memory where
  "sample_memory = [(lit ''mira'', \<lparr>asked = 3, correct = 2, meaning = Some [0x6708]\<rparr>)]"

definition sample_words :: "(str \<times> str) list" where
  "sample_words = [(lit ''mira'', [0x6708]), (lit ''sola'', [0x770B]), (lit ''q'', [0x95EE])]"

subsection \<open>The ordering key, as the specification words it\<close>

text \<open>
  The specification's error rate, \<open>1 - (correct/asked if asked>0 else 0)\<close>, in float
  arithmetic (without the overflow check of the division), and the rate of a word: that of
  its record in the memory, or of the default record \<open>asked = 0, correct = 0\<close>. They
  are what the selector's output is measured against below.
\<close>

definition error_rate :: "rounding \<Rightarrow> int \<Rightarrow> int \<Rightarrow> real" where
  "error_rate fl a c =
     one_minus fl (if a > 0 then fl (real_of_int c / real_of_int a) else 0)"

definition word_rate :: "rounding \<Rightarrow> memory \<Rightarrow> str \<Rightarrow> real" where
  "word_rate fl memory w =
     (case map_of memory w of
        None \<Rightarrow> error_rate fl 0 0
      | Some st \<Rightarrow> error_rate fl (asked st) (correct st))"

text \<open>
  A vocabulary of three words, and a history in which \<open>A\<close> was always right, \<open>B\<close> was
  never asked, \<open>C\<close> was missed three times out of four, and \<open>D\<close>, which is not in the
  vocabulary, was always right.
\<close>

definition sample_vocab :: vocab where
  "sample_vocab = [(lit ''A'', lit ''m1''), (lit ''B'', lit ''m2''), (lit ''C'', lit ''m3'')]"

definition sample_history :: memory where
  "sample_history =
     [(lit ''A'', \<lparr>asked = 10, correct = 10, meaning = Some (lit ''m1'')\<rparr>),
      (lit ''B'', \<lparr>asked = 0, correct = 0, meaning = None\<rparr>),
      (lit ''C'', \<lparr>asked = 4, correct = 1, meaning = None\<rparr>),
      (lit ''D'', \<lparr>asked = 5, correct = 5, meaning = Some (lit ''m4'')\<rparr>)]"

section \<open>The memory file (\<open>json.dump\<close> and \<open>json.load\<close>)\<close>

text \<open>
  \<open>save_memory\<close> writes the memory with
  \<open>json.dump(memory, f, ensure_ascii=False, indent=2)\<close> to a file opened for writing as
  UTF-8, and the module reads it back at start-up with \<open>json.load(f)\<close> when the file
  exists. Both are functions of Python's standard library; they are modelled here from
  the library's documented behaviour (CPython 3.11, with the accelerated scanner that
  CPython uses): the encoder on the shape of the memory, a dictionary of records, and the
  decoder on every text.
\<close>

subsection \<open>Python values read from JSON\<close>

text \<open>
  What \<open>json.load\<close> returns: \<open>None\<close>, a boolean, an integer, a float (kept as the
  text of its literal; its value is not needed), a string, a list, or a dictionary in
  insertion order.
\<close>

datatype json =
    JNull
  | JBool bool
  | JInt int
  | JFloat str
  | JStr str
  | JArr "json list"
  | JObj "(str \<times> json) list"

text \<open>The memory as the Python object it is: a dictionary of dictionaries.\<close>

definition stats_json :: "stats \<Rightarrow> json" where
  "stats_json st =
     JObj ([(lit ''asked'', JInt (asked st)), (lit ''correct'', JInt (correct st))]
           @ (case meaning st of None \<Rightarrow> [] | Some m \<Rightarrow> [(lit ''meaning'', JStr m)]))"

definition memory_json :: "memory \<Rightarrow> json" where
  "memory_json m = JObj (map (\<lambda>(w, st). (w, stats_json st)) m)"

datatype store_error = UnicodeEncodeError | UnicodeDecodeError | ValueError

subsection \<open>The encoder\<close>

text \<open>
  \<open>encode_basestring\<close>, the string encoder for \<open>ensure_ascii=False\<close>: the backslash,
  the double quote and the control characters below U+0020 are escaped, everything else
  is written as it is.
\<close>

definition hexdigit :: "nat \<Rightarrow> nat" where
  "hexdigit d = (if d < 10 then 0x30 + d else 0x61 + (d - 10))"

definition escape_char :: "nat \<Rightarrow> str" where
  "escape_char c =
     (if c = 0x5C then [0x5C, 0x5C]
      else if c = 0x22 then [0x5C, 0x22]
      else if c = 0x08 then [0x5C, 0x62]
      else if c = 0x0C then [0x5C, 0x66]
      else if c = 0x0A then [0x5C, 0x6E]
      else if c = 0x0D then [0x5C, 0x72]
      else if c = 0x09 then [0x5C, 0x74]
      else if c < 0x20 then [0x5C, 0x75, 0x30, 0x30, hexdigit (c div 16), hexdigit (c mod 16)]
      else [c])"

definition encode_basestring :: "str \<Rightarrow> str" where
  "encode_basestring s = [0x22] @ concat (map escape_char s) @ [0x22]"

text \<open>
  \<open>int.__repr__\<close>: the decimal digits, after a minus sign for a negative integer.
  Since CPython 3.11 the conversion between \<open>int\<close> and \<open>str\<close> raises \<open>ValueError\<close>
  when the integer has more than 4300 digits (the default of
  \<open>sys.set_int_max_str_digits\<close>).
\<close>

fun dec :: "nat \<Rightarrow> str" where
  "dec n = (if n < 10 then [0x30 + n] else dec (n div 10) @ [0x30 + n mod 10])"

declare dec.simps [simp del]

definition max_str_digits :: nat where
  "max_str_digits = 4300"

definition int_repr :: "int \<Rightarrow> store_error + str" where
  "int_repr i =
     (if length (dec (nat \<bar>i\<bar>)) > max_str_digits then Inl ValueError
      else Inr ((if i < 0 then [0x2D] else []) @ dec (nat \<bar>i\<bar>)))"

text \<open>
  The encoder is a generator: it yields the text in chunks, and \<open>json.dump\<close> writes
  each chunk as it comes. A chunk is a string that is ready, or the representation of an
  integer, which is computed, and may raise, when the chunk is due. With \<open>indent=2\<close> the
  chunks of a dictionary are the opening brace, a newline with the indentation, the items
  (key, \<open>': '\<close>, value) separated by a comma, newline and indentation, a newline with the
  outer indentation, and the closing brace; an empty dictionary is the one chunk
  \<open>'{}'\<close>. The keys of a record are written in the order in which the program creates
  them.
\<close>

datatype chunk = Text str | IntRepr int

definition stats_chunks :: "stats \<Rightarrow> chunk list" where
  "stats_chunks st =
     [Text [0x7B], Text [0x0A, 0x20, 0x20, 0x20, 0x20],
      Text (encode_basestring (lit ''asked'')), Text [0x3A, 0x20], IntRepr (asked st),
      Text [0x2C, 0x0A, 0x20, 0x20, 0x20, 0x20],
      Text (encode_basestring (lit ''correct'')), Text [0x3A, 0x20], IntRepr (correct st)]
     @ (case meaning st of
          None \<Rightarrow> []
        | Some m \<Rightarrow>
            [Text [0x2C, 0x0A, 0x20, 0x20, 0x20, 0x20],
             Text (encode_basestring (lit ''meaning'')), Text [0x3A, 0x20],
             Text (encode_basestring m)])
     @ [Text [0x0A, 0x20, 0x20], Text [0x7D]]"

fun items_chunks :: "memory \<Rightarrow> chunk list" where
  "items_chunks [] = []"
| "items_chunks [(w, st)] = [Text (encode_basestring w), Text [0x3A, 0x20]] @ stats_chunks st"
| "items_chunks ((w, st) # e # es) =
     [Text (encode_basestring w), Text [0x3A, 0x20]] @ stats_chunks st
     @ [Text [0x2C, 0x0A, 0x20, 0x20]] @ items_chunks (e # es)"

definition iterencode :: "memory \<Rightarrow> chunk list" where
  "iterencode m =
     (if m = [] then [Text [0x7B, 0x7D]]
      else [Text [0x7B], Text [0x0A, 0x20, 0x20]] @ items_chunks m @ [Text [0x0A], Text [0x7D]])"

definition chunk_text :: "chunk \<Rightarrow> store_error + str" where
  "chunk_text ch = (case ch of Text s \<Rightarrow> Inr s | IntRepr i \<Rightarrow> int_repr i)"

subsection \<open>The file\<close>

text \<open>
  The file holds bytes. Writing a string to a file opened with \<open>encoding='utf-8'\<close>
  encodes it; a surrogate code point (U+D800..U+DFFF) has no encoding and raises
  \<open>UnicodeEncodeError\<close>. (A code point is below U+110000 in every Python string.)
\<close>

definition utf8_char :: "nat \<Rightarrow> nat list option" where
  "utf8_char c =
     (if c < 0x80 then Some [c]
      else if c < 0x800 then Some [0xC0 + c div 0x40, 0x80 + c mod 0x40]
      else if 0xD800 \<le> c \<and> c \<le> 0xDFFF then None
      else if c < 0x10000 then
        Some [0xE0 + c div 0x1000, 0x80 + c div 0x40 mod 0x40, 0x80 + c mod 0x40]
      else if c < 0x110000 then
        Some [0xF0 + c div 0x40000, 0x80 + c div 0x1000 mod 0x40, 0x80 + c div 0x40 mod 0x40,
              0x80 + c mod 0x40]
      else None)"

fun utf8_encode :: "str \<Rightarrow> nat list option" where
  "utf8_encode [] = Some []"
| "utf8_encode (c # cs) =
     (case utf8_char c of
        None \<Rightarrow> None
      | Some bs \<Rightarrow> (case utf8_encode cs of None \<Rightarrow> None | Some rest \<Rightarrow> Some (bs @ rest)))"

text \<open>
  Reading decodes the bytes strictly: a byte sequence that is not the encoding of a code
  point (a stray or missing continuation byte, an overlong form, a surrogate, a value
  from U+110000 on) raises \<open>UnicodeDecodeError\<close>.
\<close>

definition continuation :: "nat \<Rightarrow> bool" where
  "continuation b = (0x80 \<le> b \<and> b \<le> 0xBF)"

fun utf8_decode :: "nat list \<Rightarrow> str option" where
  "utf8_decode [] = Some []"
| "utf8_decode (b # bs) =
     (if b < 0x80 then map_option (Cons b) (utf8_decode bs)
      else if 0xC2 \<le> b \<and> b \<le> 0xDF then
        (case bs of
           b1 # r \<Rightarrow>
             if continuation b1
             then map_option (Cons ((b - 0xC0) * 0x40 + (b1 - 0x80))) (utf8_decode r)
             else None
         | _ \<Rightarrow> None)
      else if 0xE0 \<le> b \<and> b \<le> 0xEF then
        (case bs of
           b1 # b2 # r \<Rightarrow>
             if continuation b1 \<and> continuation b2
                \<and> (b = 0xE0 \<longrightarrow> 0xA0 \<le> b1) \<and> (b = 0xED \<longrightarrow> b1 < 0xA0)
             then map_option
                    (Cons ((b - 0xE0) * 0x1000 + (b1 - 0x80) * 0x40 + (b2 - 0x80)))
                    (utf8_decode r)
             else None
         | _ \<Rightarrow> None)
      else if 0xF0 \<le> b \<and> b \<le> 0xF4 then
        (case bs of
           b1 # b2 # b3 # r \<Rightarrow>
             if continuation b1 \<and> continuation b2 \<and> continuation b3
                \<and> (b = 0xF0 \<longrightarrow> 0x90 \<le> b1) \<and> (b = 0xF4 \<longrightarrow> b1 < 0x90)
             then map_option
                    (Cons ((b - 0xF0) * 0x40000 + (b1 - 0x80) * 0x1000 + (b2 - 0x80) * 0x40
                           + (b3 - 0x80)))
                    (utf8_decode r)
             else None
         | _ \<Rightarrow> None)
      else None)"

text \<open>
  A file opened for reading in text mode translates the line endings \<open>'\r\n'\<close> and
  \<open>'\r'\<close> to \<open>'\n'\<close> (universal newlines). On writing, \<open>'\n'\<close> becomes the
  platform's line separator, which is \<open>'\n'\<close> itself on the systems modelled here.
\<close>

fun universal_newlines :: "str \<Rightarrow> str" where
  "universal_newlines [] = []"
| "universal_newlines [c] = [if c = 0x0D then 0x0A else c]"
| "universal_newlines (c # d # cs) =
     (if c = 0x0D then
        (if d = 0x0A then 0x0A # universal_newlines cs else 0x0A # universal_newlines (d # cs))
      else c # universal_newlines (d # cs))"

subsection \<open>The decoder\<close>

definition is_ws :: "nat \<Rightarrow> bool" where
  "is_ws c = (c = 0x20 \<or> c = 0x09 \<or> c = 0x0A \<or> c = 0x0D)"

definition skip_ws :: "str \<Rightarrow> str" where
  "skip_ws s = dropWhile is_ws s"

definition is_digit :: "nat \<Rightarrow> bool" where
  "is_digit c = (0x30 \<le> c \<and> c \<le> 0x39)"

definition hexval :: "nat \<Rightarrow> nat option" where
  "hexval c =
     (if 0x30 \<le> c \<and> c \<le> 0x39 then Some (c - 0x30)
      else if 0x61 \<le> c \<and> c \<le> 0x66 then Some (c - 0x61 + 10)
      else if 0x41 \<le> c \<and> c \<le> 0x46 then Some (c - 0x41 + 10)
      else None)"

text \<open>The four hexadecimal digits of a \<open>\uXXXX\<close> escape.\<close>

definition hex4 :: "nat \<Rightarrow> nat \<Rightarrow> nat \<Rightarrow> nat \<Rightarrow> nat option" where
  "hex4 a b c d =
     (case (hexval a, hexval b, hexval c, hexval d) of
        (Some x, Some y, Some z, Some w) \<Rightarrow> Some (((x * 16 + y) * 16 + z) * 16 + w)
      | _ \<Rightarrow> None)"

text \<open>The character of a two-character escape.\<close>

definition unescape :: "nat \<Rightarrow> nat option" where
  "unescape e =
     (if e = 0x22 then Some 0x22
      else if e = 0x5C then Some 0x5C
      else if e = 0x2F then Some 0x2F
      else if e = 0x62 then Some 0x08
      else if e = 0x66 then Some 0x0C
      else if e = 0x6E then Some 0x0A
      else if e = 0x72 then Some 0x0D
      else if e = 0x74 then Some 0x09
      else None)"

definition prepend :: "nat \<Rightarrow> (str \<times> str) option \<Rightarrow> (str \<times> str) option" where
  "prepend c r = map_option (\<lambda>(s, rest). (c # s, rest)) r"

text \<open>
  \<open>scanstring\<close> in strict mode, on the text after the opening quote: the string up to the
  closing quote, and the text after it. A control character below U+0020, an unknown
  escape, a malformed \<open>\uXXXX\<close> and a missing closing quote are errors (\<open>None\<close>). A
  \<open>\uXXXX\<close> escape of a high surrogate directly followed by one of a low surrogate is
  the one code point they encode.
\<close>

fun scanstring :: "str \<Rightarrow> (str \<times> str) option" where
  "scanstring [] = None"
| "scanstring (c # cs) =
     (if c = 0x22 then Some ([], cs)
      else if c = 0x5C then
        (case cs of
           [] \<Rightarrow> None
         | e # cs1 \<Rightarrow>
             if e = 0x75 then
               (case cs1 of
                  h1 # h2 # h3 # h4 # cs2 \<Rightarrow>
                    (case hex4 h1 h2 h3 h4 of
                       None \<Rightarrow> None
                     | Some u \<Rightarrow>
                         if 0xD800 \<le> u \<and> u \<le> 0xDBFF then
                           (case cs2 of
                              b # v # l1 # l2 # l3 # l4 # cs3 \<Rightarrow>
                                if b = 0x5C \<and> v = 0x75 then
                                  (case hex4 l1 l2 l3 l4 of
                                     None \<Rightarrow> None
                                   | Some l \<Rightarrow>
                                       if 0xDC00 \<le> l \<and> l \<le> 0xDFFF
                                       then prepend
                                              (0x10000 + (u - 0xD800) * 0x400 + (l - 0xDC00))
                                              (scanstring cs3)
                                       else prepend u (scanstring cs2))
                                else prepend u (scanstring cs2)
                            | _ \<Rightarrow> prepend u (scanstring cs2))
                         else prepend u (scanstring cs2))
                | _ \<Rightarrow> None)
             else
               (case unescape e of
                  None \<Rightarrow> None
                | Some x \<Rightarrow> prepend x (scanstring cs1)))
      else if c < 0x20 then None
      else prepend c (scanstring cs))"

text \<open>The value of a run of decimal digits.\<close>

definition digits_value :: "str \<Rightarrow> nat" where
  "digits_value ds = foldl (\<lambda>a d. 10 * a + (d - 0x30)) 0 ds"

text \<open>
  The exponent part of a number at the start of the text, when there is one: \<open>e\<close> or
  \<open>E\<close>, an optional sign, and at least one digit.
\<close>

definition exponent :: "str \<Rightarrow> str \<times> str" where
  "exponent s =
     (case s of
        [] \<Rightarrow> ([], s)
      | e # s1 \<Rightarrow>
          if e = 0x65 \<or> e = 0x45 then
            (let (sign, s2) = (case s1 of
                                 [] \<Rightarrow> ([], s1)
                               | g # r \<Rightarrow> if g = 0x2D \<or> g = 0x2B then ([g], r) else ([], s1))
             in if takeWhile is_digit s2 = [] then ([], s)
                else (e # sign @ takeWhile is_digit s2, dropWhile is_digit s2))
          else ([], s))"

text \<open>
  A number at the start of the text: an optional minus sign, then \<open>0\<close> or a run of digits
  that starts with \<open>1\<close>..\<open>9\<close>, then a fraction (a point and at least one digit) and an
  exponent when they are there. Without fraction and exponent it is an integer, and
  \<open>int\<close> raises \<open>ValueError\<close> on more than 4300 digits.
\<close>

definition match_number :: "str \<Rightarrow> (json \<times> str) option" where
  "match_number s =
     (let (sign, s1) = (case s of
                          [] \<Rightarrow> ([], s)
                        | c # cs \<Rightarrow> if c = 0x2D then ([c], cs) else ([], s));
          (ds, s2) = (case s1 of
                        [] \<Rightarrow> ([], s1)
                      | c # cs \<Rightarrow>
                          if c = 0x30 then ([c], cs)
                          else if 0x31 \<le> c \<and> c \<le> 0x39
                          then (takeWhile is_digit s1, dropWhile is_digit s1)
                          else ([], s1))
      in if ds = [] then None
         else
           (let (frac, s3) = (case s2 of
                                [] \<Rightarrow> ([], s2)
                              | p # r \<Rightarrow>
                                  if p = 0x2E \<and> takeWhile is_digit r \<noteq> []
                                  then (p # takeWhile is_digit r, dropWhile is_digit r)
                                  else ([], s2));
                (ex, s4) = exponent s3
            in if frac = [] \<and> ex = [] then
                 (if length ds > max_str_digits then None
                  else Some (JInt (if sign = [] then int (digits_value ds)
                                   else - int (digits_value ds)), s4))
               else Some (JFloat (sign @ ds @ frac @ ex), s4)))"

text \<open>
  A dictionary is built by inserting the pairs in order: a key that comes again keeps its
  place and takes the later value.
\<close>

definition dict_of_pairs :: "(str \<times> json) list \<Rightarrow> (str \<times> json) list" where
  "dict_of_pairs ps = fold (\<lambda>(k, v) d. dict_set k v d) ps []"

text \<open>
  The scanner. \<open>scan_once\<close> reads one value at the start of the text and returns it with
  the text after it; \<open>parse_members\<close> reads the items of a dictionary from the opening
  quote of a key on, \<open>parse_elements\<close> the elements of a list, given what was read
  before. The first argument bounds the number of nested calls; \<open>json_loads\<close> starts it
  with the length of the text, which no text exhausts, as every call reads at least one
  character before the next. (CPython's own bound, the recursion limit of the
  interpreter, is not modelled.)
\<close>

fun scan_once :: "nat \<Rightarrow> str \<Rightarrow> (json \<times> str) option"
  and parse_members :: "nat \<Rightarrow> (str \<times> json) list \<Rightarrow> str \<Rightarrow> (json \<times> str) option"
  and parse_elements :: "nat \<Rightarrow> json list \<Rightarrow> str \<Rightarrow> (json \<times> str) option"
where
  "scan_once 0 s = None"
| "scan_once (Suc n) [] = None"
| "scan_once (Suc n) (c # cs) =
     (if c = 0x22 then map_option (\<lambda>(x, rest). (JStr x, rest)) (scanstring cs)
      else if c = 0x7B then
        (case skip_ws cs of
           [] \<Rightarrow> None
         | d # ds \<Rightarrow> if d = 0x7D then Some (JObj [], ds) else parse_members n [] (d # ds))
      else if c = 0x5B then
        (case skip_ws cs of
           [] \<Rightarrow> None
         | d # ds \<Rightarrow> if d = 0x5D then Some (JArr [], ds) else parse_elements n [] (d # ds))
      else if c = 0x6E \<and> take 3 cs = lit ''ull'' then Some (JNull, drop 3 cs)
      else if c = 0x74 \<and> take 3 cs = lit ''rue'' then Some (JBool True, drop 3 cs)
      else if c = 0x66 \<and> take 4 cs = lit ''alse'' then Some (JBool False, drop 4 cs)
      else if c = 0x4E \<and> take 2 cs = lit ''aN'' then Some (JFloat (lit ''NaN''), drop 2 cs)
      else if c = 0x49 \<and> take 7 cs = lit ''nfinity''
        then Some (JFloat (lit ''Infinity''), drop 7 cs)
      else if c = 0x2D \<and> take 8 cs = lit ''Infinity''
        then Some (JFloat (lit ''-Infinity''), drop 8 cs)
      else match_number (c # cs))"
| "parse_members 0 acc s = None"
| "parse_members (Suc n) acc [] = None"
| "parse_members (Suc n) acc (c # cs) =
     (if c \<noteq> 0x22 then None
      else
        (case scanstring cs of
           None \<Rightarrow> None
         | Some (key, s1) \<Rightarrow>
             (case skip_ws s1 of
                [] \<Rightarrow> None
              | colon # s2 \<Rightarrow>
                  if colon \<noteq> 0x3A then None
                  else
                    (case scan_once n (skip_ws s2) of
                       None \<Rightarrow> None
                     | Some (v, s3) \<Rightarrow>
                         (case skip_ws s3 of
                            [] \<Rightarrow> None
                          | d # s4 \<Rightarrow>
                              if d = 0x7D then Some (JObj (dict_of_pairs (acc @ [(key, v)])), s4)
                              else if d = 0x2C
                              then parse_members n (acc @ [(key, v)]) (skip_ws s4)
                              else None)))))"
| "parse_elements 0 acc s = None"
| "parse_elements (Suc n) acc s =
     (case scan_once n s of
        None \<Rightarrow> None
      | Some (v, s1) \<Rightarrow>
          (case skip_ws s1 of
             [] \<Rightarrow> None
           | d # s2 \<Rightarrow>
               if d = 0x5D then Some (JArr (acc @ [v]), s2)
               else if d = 0x2C then parse_elements n (acc @ [v]) (skip_ws s2)
               else None))"

text \<open>
  \<open>json.loads\<close>: a text that starts with the byte order mark is refused; otherwise one
  value is read after the leading whitespace, and only whitespace may follow it. Every
  failure is a \<open>JSONDecodeError\<close>, a subclass of \<open>ValueError\<close>, or the \<open>ValueError\<close> of
  an integer with too many digits.
\<close>

definition json_loads :: "str \<Rightarrow> json option" where
  "json_loads s =
     (if s \<noteq> [] \<and> hd s = 0xFEFF then None
      else
        (case scan_once (length s) (skip_ws s) of
           None \<Rightarrow> None
         | Some (v, rest) \<Rightarrow> if skip_ws rest = [] then Some v else None))"

subsection \<open>Saving and loading\<close>

text \<open>
  \<open>json.dump\<close> into the file: the chunks are written in order, and the first one that
  cannot be produced or encoded raises. Opening the file for writing empties it, and
  leaving the \<open>with\<close> block closes it, so the file then holds what was written before
  the error. The result is the error, if any, and the bytes of the file.
\<close>

fun write_chunks :: "chunk list \<Rightarrow> nat list \<Rightarrow> store_error option \<times> nat list" where
  "write_chunks [] file = (None, file)"
| "write_chunks (ch # chs) file =
     (case chunk_text ch of
        Inl e \<Rightarrow> (Some e, file)
      | Inr s \<Rightarrow>
          (case utf8_encode s of
             None \<Rightarrow> (Some UnicodeEncodeError, file)
           | Some bytes \<Rightarrow> write_chunks chs (file @ bytes)))"

definition save_memory :: "memory \<Rightarrow> store_error option \<times> nat list" where
  "save_memory m = write_chunks (iterencode m) []"

text \<open>
  The start of the module: the empty dictionary when there is no file (\<open>None\<close>),
  otherwise \<open>json.load\<close> of the file read as UTF-8 text.
\<close>

definition load_memory :: "nat list option \<Rightarrow> store_error + json" where
  "load_memory file =
     (case file of
        None \<Rightarrow> Inr (JObj [])
      | Some bytes \<Rightarrow>
          (case utf8_decode bytes of
             None \<Rightarrow> Inl UnicodeDecodeError
           | Some text \<Rightarrow>
               (case json_loads (universal_newlines text) of
                  None \<Rightarrow> Inl ValueError
                | Some v \<Rightarrow> Inr v)))"

section \<open>Properties of the line parser\<close>

lemma chinese_start_Some:
  "chinese_start ps = Some i \<longleftrightarrow>
     i < length ps \<and> contains_chinese (ps ! i) \<and> (\<forall>j<i. \<not> contains_chinese (ps ! j))"
proof (induction ps arbitrary: i)
  case Nil
  show ?case by simp
next
  case (Cons p ps)
  show ?case
  proof (cases "contains_chinese p")
    case True
    then show ?thesis by (cases i) auto
  next
    case False
    show ?thesis
    proof (cases i)
      case 0
      with False show ?thesis by simp
    next
      case (Suc k)
      have "(\<forall>j<Suc k. \<not> contains_chinese ((p # ps) ! j)) \<longleftrightarrow>
            (\<forall>j<k. \<not> contains_chinese (ps ! j))"
        using False by (auto simp: less_Suc_eq_0_disj)
      with False Suc Cons.IH [of k] show ?thesis by auto
    qed
  qed
qed

lemma chinese_start_None:
  "chinese_start ps = None \<longleftrightarrow> (\<forall>p\<in>set ps. \<not> contains_chinese p)"
  by (induction ps) auto

lemma marker_ascii: "m \<in> set pos_markers \<Longrightarrow> c \<in> set m \<Longrightarrow> c < 128"
  by (auto simp: pos_markers_def lit_def)

lemma lower_keeps_chinese:
  assumes "c \<in> set text" "0x4E00 \<le> c"
  shows "c \<in> set (lower text)"
proof -
  from assms(2) have "lower_cp c = [c]" by (simp add: lower_cp_def)
  with assms(1) show ?thesis by (force simp: lower_def)
qed

lemma chinese_not_marker:
  assumes "contains_chinese text"
  shows "\<not> is_pos_marker text"
proof
  assume m: "is_pos_marker text"
  from assms obtain c where c: "c \<in> set text" "0x4E00 \<le> c"
    by (auto simp: contains_chinese_def list_ex_iff)
  from m consider "lower text \<in> set pos_markers" | "text \<in> set pos_markers"
    by (auto simp: is_pos_marker_def)
  then show False
  proof cases
    case 1
    from marker_ascii [OF 1 lower_keeps_chinese [OF c]] c(2) show False by simp
  next
    case 2
    from marker_ascii [OF 2 c(1)] c(2) show False by simp
  qed
qed

text \<open>
  The code's marker test is the case-insensitive match on ASCII letters: the two code
  points outside ASCII whose lowercase form has an ASCII letter cannot occur in a text that
  lowers to a marker.
\<close>

lemma lower_plain:
  "\<forall>c\<in>set t. c \<noteq> 0x130 \<and> c \<noteq> 0x212A \<Longrightarrow> lower t = map ascii_lower t"
  by (induction t) (simp_all add: lower_def lower_cp_def ascii_lower_def)

lemma lower_special:
  assumes "c \<in> set t" "c = 0x130 \<or> c = 0x212A"
  shows "0x307 \<in> set (lower t) \<or> 0x6B \<in> set (lower t)"
proof -
  from assms(2) have "0x307 \<in> set (lower_cp c) \<or> 0x6B \<in> set (lower_cp c)"
    by (auto simp: lower_cp_def)
  with assms(1) show ?thesis by (force simp: lower_def)
qed

lemma marker_letters:
  "m \<in> set pos_markers \<Longrightarrow> 0x307 \<notin> set m \<and> 0x6B \<notin> set m \<and> 0x130 \<notin> set m \<and> 0x212A \<notin> set m"
  by (auto simp: pos_markers_def lit_def)

lemma marker_lowered: "m \<in> set pos_markers \<Longrightarrow> map ascii_lower m = m"
  by (auto simp: pos_markers_def lit_def ascii_lower_def)

lemma is_pos_marker_ascii: "is_pos_marker t \<longleftrightarrow> map ascii_lower t \<in> set pos_markers"
proof
  assume "is_pos_marker t"
  then consider "lower t \<in> set pos_markers" | "t \<in> set pos_markers"
    by (auto simp: is_pos_marker_def)
  then show "map ascii_lower t \<in> set pos_markers"
  proof cases
    case 1
    have "\<forall>c\<in>set t. c \<noteq> 0x130 \<and> c \<noteq> 0x212A"
    proof (rule ccontr)
      assume "\<not> (\<forall>c\<in>set t. c \<noteq> 0x130 \<and> c \<noteq> 0x212A)"
      then obtain c where "c \<in> set t" "c = 0x130 \<or> c = 0x212A" by blast
      from lower_special [OF this] marker_letters [OF 1] show False by blast
    qed
    from lower_plain [OF this] 1 show ?thesis by simp
  next
    case 2
    with marker_lowered show ?thesis by simp
  qed
next
  assume a: "map ascii_lower t \<in> set pos_markers"
  have "\<forall>c\<in>set t. c \<noteq> 0x130 \<and> c \<noteq> 0x212A"
  proof
    fix c assume c: "c \<in> set t"
    show "c \<noteq> 0x130 \<and> c \<noteq> 0x212A"
    proof (rule ccontr)
      assume n: "\<not> (c \<noteq> 0x130 \<and> c \<noteq> 0x212A)"
      then have "ascii_lower c = c" by (auto simp: ascii_lower_def)
      with c have "c \<in> set (map ascii_lower t)" by force
      with marker_letters [OF a] n show False by auto
    qed
  qed
  from lower_plain [OF this] a show "is_pos_marker t" by (simp add: is_pos_marker_def)
qed

text \<open>
  The character classes of the numbering pattern do not overlap, which is what makes the
  greedy reading of the pattern in \<open>sub_number_prefix\<close> the only one.
\<close>

lemma full_stop_class: "\<not> isspace 0x2E" "\<not> isdecimal 0x2E"
  by (simp_all add: isspace_def isdecimal_def decimal_blocks_def)

lemma decimal_not_low: "isdecimal c \<Longrightarrow> 0x30 \<le> c"
  by (simp add: isdecimal_def decimal_blocks_def) linarith

lemma decimal_not_punctuation: "isdecimal c \<Longrightarrow> \<not> (0x2000 \<le> c \<and> c \<le> 0x3000)"
  by (simp add: isdecimal_def decimal_blocks_def) linarith

lemma space_not_decimal:
  assumes "isspace c"
  shows "\<not> isdecimal c"
proof -
  from assms consider "c \<le> 0x20" | "c = 0x85" | "c = 0xA0" | "c = 0x1680"
    | "0x2000 \<le> c \<and> c \<le> 0x3000"
    by (auto simp: isspace_def)
  then show ?thesis
  proof cases
    case 1
    then show ?thesis using decimal_not_low [of c] by auto
  next
    case 2
    then show ?thesis by (simp add: isdecimal_def decimal_blocks_def)
  next
    case 3
    then show ?thesis by (simp add: isdecimal_def decimal_blocks_def)
  next
    case 4
    then show ?thesis by (simp add: isdecimal_def decimal_blocks_def)
  next
    case 5
    then show ?thesis using decimal_not_punctuation [of c] by auto
  qed
qed


lemma split_from_Nil: "split_from cur s = [] \<longleftrightarrow> cur = [] \<and> (\<forall>c\<in>set s. isspace c)"
  by (induction s arbitrary: cur) auto

lemma split_Nil: "split [] = []"
  by (simp add: split_def)

lemma split_from_single:
  assumes "split_from cur s = [t]"
    and "s \<noteq> [] \<Longrightarrow> \<not> isspace (last s)"
    and "cur = [] \<Longrightarrow> s \<noteq> [] \<and> \<not> isspace (hd s)"
  shows "cur @ s = t"
  using assms
proof (induction s arbitrary: cur)
  case Nil
  then show ?case by (auto split: if_splits)
next
  case (Cons c cs)
  show ?case
  proof (cases "isspace c")
    case True
    with Cons.prems(3) have cur: "cur \<noteq> []" by auto
    with True Cons.prems(1) have "split_from [] cs = []" by simp
    then have "\<forall>x\<in>set cs. isspace x" by (simp add: split_from_Nil)
    with True have "isspace (last (c # cs))" by (cases cs) auto
    with Cons.prems(2) show ?thesis by simp
  next
    case False
    with Cons.prems(1) have 1: "split_from (cur @ [c]) cs = [t]" by simp
    have 2: "cs \<noteq> [] \<Longrightarrow> \<not> isspace (last cs)" using Cons.prems(2) by auto
    from Cons.IH [OF 1 2] show ?thesis by simp
  qed
qed

lemma last_dropWhile: "dropWhile P xs \<noteq> [] \<Longrightarrow> last (dropWhile P xs) = last xs"
  by (induction xs) (auto split: if_splits)

lemma hd_dropWhile_not: "dropWhile P xs \<noteq> [] \<Longrightarrow> \<not> P (hd (dropWhile P xs))"
  by (rule hd_dropWhile)

lemma strip_ends:
  assumes "strip s \<noteq> []"
  shows "\<not> isspace (hd (strip s))" and "\<not> isspace (last (strip s))"
proof -
  let ?a = "dropWhile isspace s"
  let ?b = "dropWhile isspace (rev ?a)"
  from assms have b: "?b \<noteq> []" by (simp add: strip_def)
  have a: "?a \<noteq> []"
  proof
    assume e: "?a = []"
    have "?b = []" unfolding e by simp
    with b show False ..
  qed
  have "last (strip s) = hd ?b" using b by (simp add: strip_def last_rev)
  with hd_dropWhile [OF b] show "\<not> isspace (last (strip s))" by simp
  have "hd (strip s) = last ?b" using b by (simp add: strip_def hd_rev)
  also have "\<dots> = last (rev ?a)" using b by (rule last_dropWhile)
  also have "\<dots> = hd ?a" using a by (simp add: last_rev)
  finally show "\<not> isspace (hd (strip s))" using hd_dropWhile [OF a] by simp
qed

lemma sub_number_prefix_ends:
  assumes "s \<noteq> [] \<Longrightarrow> \<not> isspace (hd s) \<and> \<not> isspace (last s)"
    and "sub_number_prefix s \<noteq> []"
  shows "\<not> isspace (hd (sub_number_prefix s)) \<and> \<not> isspace (last (sub_number_prefix s))"
proof (cases "sub_number_prefix s = s")
  case True
  with assms show ?thesis by auto
next
  case False
  let ?s1 = "dropWhile isspace s"
  let ?s2 = "dropWhile isdecimal ?s1"
  from False obtain c s3 where s2: "?s2 = c # s3"
    and r: "sub_number_prefix s = dropWhile isspace s3"
    by (auto simp: sub_number_prefix_def Let_def split: list.splits if_splits)
  from r assms(2) have ne: "dropWhile isspace s3 \<noteq> []" by simp
  then have s3: "s3 \<noteq> []" by auto
  have s1: "?s1 \<noteq> []" using s2 by (metis dropWhile.simps(1) list.distinct(1))
  have s: "s \<noteq> []" using s1 by (metis dropWhile.simps(1))
  have "last (dropWhile isspace s3) = last s3" using ne by (rule last_dropWhile)
  also have "\<dots> = last ?s2" using s2 s3 by simp
  also have "\<dots> = last ?s1" using s2 by (intro last_dropWhile) simp
  also have "\<dots> = last s" using s1 by (rule last_dropWhile)
  finally have "\<not> isspace (last (sub_number_prefix s))" using r assms(1) s by simp
  moreover have "\<not> isspace (hd (sub_number_prefix s))"
    using hd_dropWhile [OF ne] r by simp
  ultimately show ?thesis by simp
qed

lemma clean_ends:
  assumes "clean line \<noteq> []"
  shows "\<not> isspace (hd (clean line)) \<and> \<not> isspace (last (clean line))"
  unfolding clean_def
  using strip_ends [of line] assms
  by (intro sub_number_prefix_ends) (auto simp: clean_def)

lemma split_single_clean:
  assumes "split (clean line) = [t]"
  shows "clean line = t"
proof -
  from assms have ne: "clean line \<noteq> []" by (auto simp: split_Nil)
  from clean_ends [OF ne] ne assms show ?thesis
    using split_from_single [of "[]" "clean line" t] by (simp add: split_def)
qed

lemmas str_eval = lit_def isspace_def isdecimal_def decimal_blocks_def strip_def split_def
  lower_cp_def lower_def VocabEntry_def contains_chinese_def pos_markers_def is_pos_marker_def
  sub_number_prefix_def clean_def parse_line_def Let_def

text \<open>
  Claim C1. Whenever the tokens of the cleaned line (numbering prefix and surrounding
  whitespace removed, split at whitespace) have their first Chinese-bearing token at an
  index \<open>i > 0\<close>, \<open>parse_line\<close> returns a defined entry: the word is the tokens before
  \<open>i\<close> joined by spaces, the meaning is the tokens from \<open>i\<close> on joined by spaces, and
  a last token that is a part-of-speech marker (one of the eight markers when its ASCII
  capitals are lowered) is taken out of the meaning and stored as the part of speech. In particular the line \<open>3. ora pelan \<dots> v.\<close>, with the one-character
  gloss U+8D70, gives word \<open>ora pelan\<close>, that gloss as meaning and \<open>v.\<close> as part of speech.
\<close>

theorem parse_line_defined_entry:
  assumes "parts = split (clean line)"
    and "i < length parts" and "0 < i"
    and "contains_chinese (parts ! i)"
    and "\<forall>j<i. \<not> contains_chinese (parts ! j)"
  shows "is_defined (parse_line line n fp)
     \<and> selik_word (parse_line line n fp) = join (take i parts)
     \<and> (if is_pos_marker (last parts)
        then chinese_meaning (parse_line line n fp) = join (butlast (drop i parts))
           \<and> part_of_speech (parse_line line n fp) = last parts
        else chinese_meaning (parse_line line n fp) = join (drop i parts)
           \<and> part_of_speech (parse_line line n fp) = [])
     \<and> (is_pos_marker (last parts) \<longleftrightarrow> map ascii_lower (last parts) \<in> set pos_markers)
     \<and> parse_line (lit ''3. ora pelan '' @ [0x8D70] @ lit '' v.'') n fp
         = VocabEntry n (lit ''3. ora pelan '' @ [0x8D70] @ lit '' v.'')
             (lit ''ora pelan'') [0x8D70] (lit ''v.'') True fp"
proof -
  from assms have cs: "chinese_start (split (clean line)) = Some i"
    by (simp add: chinese_start_Some)
  from assms(1,2) have ne: "split (clean line) \<noteq> []" by auto
  then have cl: "clean line \<noteq> []" by (auto simp: split_Nil)
  have lst: "last (drop i parts) = last parts" using assms(2) by simp
  have one: "\<not> is_pos_marker (last parts)" if "length (drop i parts) \<le> 1"
  proof -
    have d: "drop i parts = parts ! i # drop (Suc i) parts"
      using assms(2) by (simp add: Cons_nth_drop_Suc)
    with that have "drop (Suc i) parts = []" by simp
    with d lst have "last parts = parts ! i" by simp
    with assms(4) chinese_not_marker show ?thesis by simp
  qed
  have general: "is_defined (parse_line line n fp)
     \<and> selik_word (parse_line line n fp) = join (take i parts)
     \<and> (if is_pos_marker (last parts)
        then chinese_meaning (parse_line line n fp) = join (butlast (drop i parts))
           \<and> part_of_speech (parse_line line n fp) = last parts
        else chinese_meaning (parse_line line n fp) = join (drop i parts)
           \<and> part_of_speech (parse_line line n fp) = [])"
    using cs ne cl assms(1,3) lst one
    by (auto simp: parse_line_def Let_def VocabEntry_def)
  have example: "parse_line (lit ''3. ora pelan '' @ [0x8D70] @ lit '' v.'') n fp
         = VocabEntry n (lit ''3. ora pelan '' @ [0x8D70] @ lit '' v.'')
             (lit ''ora pelan'') [0x8D70] (lit ''v.'') True fp"
    by (simp add: str_eval)
  from general is_pos_marker_ascii [of "last parts"] example show ?thesis by simp
qed

theorem parse_line_defined_entry_witness:
  "split (clean (lit ''2. mira Lun '' @ [0x6708, 0x4EAE] @ lit '' N.''))
     = [lit ''mira'', lit ''Lun'', [0x6708, 0x4EAE], lit ''N.'']
   \<and> contains_chinese [0x6708, 0x4EAE] \<and> \<not> contains_chinese (lit ''mira'')
   \<and> \<not> contains_chinese (lit ''Lun'') \<and> is_pos_marker (lit ''N.'')
   \<and> is_defined (parse_line (lit ''2. mira Lun '' @ [0x6708, 0x4EAE] @ lit '' N.'') 2 (lit ''a.txt''))
   \<and> selik_word (parse_line (lit ''2. mira Lun '' @ [0x6708, 0x4EAE] @ lit '' N.'') 2 (lit ''a.txt''))
       = lit ''mira Lun''
   \<and> chinese_meaning (parse_line (lit ''2. mira Lun '' @ [0x6708, 0x4EAE] @ lit '' N.'') 2 (lit ''a.txt''))
       = [0x6708, 0x4EAE]
   \<and> part_of_speech (parse_line (lit ''2. mira Lun '' @ [0x6708, 0x4EAE] @ lit '' N.'') 2 (lit ''a.txt''))
       = lit ''N.''"
proof -
  let ?L = "lit ''2. mira Lun '' @ [0x6708, 0x4EAE] @ lit '' N.''"
  let ?ps = "[lit ''mira'', lit ''Lun'', [0x6708, 0x4EAE], lit ''N.'']"
  have p: "split (clean ?L) = ?ps" by (simp add: str_eval)
  have i: "2 < length ?ps" "0 < (2::nat)" by simp_all
  have c: "contains_chinese (?ps ! 2)" by (simp add: str_eval)
  have n: "\<forall>j<2. \<not> contains_chinese (?ps ! j)"
  proof (intro allI impI)
    fix j :: nat
    assume "j < 2"
    then have "j = 0 \<or> j = 1" by auto
    then show "\<not> contains_chinese (?ps ! j)" by (auto simp: str_eval)
  qed
  have m: "is_pos_marker (lit ''N.'')" by (simp add: str_eval)
  have e: "\<not> contains_chinese (lit ''mira'') \<and> \<not> contains_chinese (lit ''Lun'')
         \<and> contains_chinese [0x6708, 0x4EAE]" by (simp add: str_eval)
  note r = parse_line_defined_entry [OF p [symmetric] i c n, of 2 "lit ''a.txt''"]
  from r [THEN conjunct1] r [THEN conjunct2, THEN conjunct1]
    r [THEN conjunct2, THEN conjunct2, THEN conjunct1] m e p
  show ?thesis by (simp add: lit_def)
qed

text \<open>
  Claim C5 does not hold as stated: a line whose only token is a part-of-speech marker
  has no Chinese-bearing token, so \<open>parse_line\<close> takes the branch for lines without
  Chinese text. For \<open>7. v.\<close> the meaning is \<open>v.\<close> and the part of speech is empty.
\<close>

theorem lone_marker_counterexample:
  "split (clean (lit ''7. v.'')) = [lit ''v.''] \<and> is_pos_marker (lit ''v.'')
   \<and> \<not> (chinese_meaning (parse_line (lit ''7. v.'') 7 (lit ''vocab.txt'')) = []
         \<and> part_of_speech (parse_line (lit ''7. v.'') 7 (lit ''vocab.txt'')) = lit ''v.'')"
  by (simp add: str_eval)

text \<open>
  Claim C5, amended. When the cleaned line consists of exactly one token and that token
  is a part-of-speech marker, \<open>parse_line\<close> returns an undefined entry with an empty
  word, the marker itself as the meaning, and an empty part of speech.
\<close>

theorem parse_line_lone_marker:
  assumes "split (clean line) = [t]" and "is_pos_marker t"
  shows "parse_line line n fp = VocabEntry n line [] t [] False fp"
proof -
  from assms(2) chinese_not_marker have "\<not> contains_chinese t" by auto
  with assms(1) have cs: "chinese_start (split (clean line)) = None" by simp
  from split_single_clean [OF assms(1)] have cl: "clean line = t" .
  from assms(1) cl have "t \<noteq> []" by (auto simp: split_Nil)
  with cs cl assms(1) show ?thesis by (simp add: parse_line_def Let_def)
qed

theorem parse_line_lone_marker_witness:
  "split (clean (lit ''7. v.'')) = [lit ''v.''] \<and> is_pos_marker (lit ''v.'')
   \<and> parse_line (lit ''7. v.'') 7 (lit ''vocab.txt'')
       = VocabEntry 7 (lit ''7. v.'') [] (lit ''v.'') [] False (lit ''vocab.txt'')"
proof -
  have s: "split (clean (lit ''7. v.'')) = [lit ''v.'']" by (simp add: str_eval)
  have m: "is_pos_marker (lit ''v.'')" by (simp add: str_eval)
  from parse_line_lone_marker [OF s m] s m show ?thesis by simp
qed

section \<open>Properties of the analyzer\<close>

lemma keys_dd_append_old: "k \<in> fst ` set d \<Longrightarrow> map fst (dd_append k e d) = map fst d"
proof (induction d)
  case Nil
  then show ?case by simp
next
  case (Cons p d)
  obtain k' es where p: "p = (k', es)" by (cases p)
  show ?case
  proof (cases "k' = k")
    case True
    with p show ?thesis by simp
  next
    case False
    with Cons.prems p have "k \<in> fst ` set d" by auto
    with Cons.IH False p show ?thesis by simp
  qed
qed

lemma keys_dd_append_new: "k \<notin> fst ` set d \<Longrightarrow> map fst (dd_append k e d) = map fst d @ [k]"
  by (induction d) auto

lemma keys_dd_append:
  "map fst (dd_append k e d) = (if k \<in> fst ` set d then map fst d else map fst d @ [k])"
  by (simp add: keys_dd_append_old keys_dd_append_new)

lemma distinct_dd_append: "distinct (map fst d) \<Longrightarrow> distinct (map fst (dd_append k e d))"
  by (simp add: keys_dd_append)

lemma map_of_dd_append:
  "map_of (dd_append k e d) k' =
     (if k' = k then Some ((case map_of d k of None \<Rightarrow> [] | Some es \<Rightarrow> es) @ [e])
      else map_of d k')"
  by (induction d) auto

lemma distinct_group_into:
  "distinct (map fst d) \<Longrightarrow> distinct (map fst (group_into P f es d))"
  unfolding group_into_def
  by (induction es arbitrary: d) (auto simp: distinct_dd_append)

lemma map_of_group_into:
  "map_of (group_into P f es d) k =
     (if filter (\<lambda>e. P e \<and> f e = k) es = [] then map_of d k
      else Some ((case map_of d k of None \<Rightarrow> [] | Some old \<Rightarrow> old) @ filter (\<lambda>e. P e \<and> f e = k) es))"
  unfolding group_into_def
proof (induction es arbitrary: d)
  case Nil
  show ?case by simp
next
  case (Cons e es)
  show ?case
    by (simp add: Cons.IH map_of_dd_append split: option.splits)
qed

lemma clusters_iff:
  "(k, c) \<in> set (filter (\<lambda>(k, v). length v > 1) (group_into P f es [])) \<longleftrightarrow>
     c = filter (\<lambda>e. P e \<and> f e = k) es \<and> length c > 1"
proof -
  have d: "distinct (map fst (group_into P f es []))"
    by (rule distinct_group_into) simp
  have "(k, c) \<in> set (group_into P f es []) \<longleftrightarrow> map_of (group_into P f es []) k = Some c"
    using d by simp
  then show ?thesis
    by (auto simp: map_of_group_into split: if_splits)
qed


lemma split_from_nonempty: "t \<in> set (split_from cur s) \<Longrightarrow> t \<noteq> []"
  by (induction s arbitrary: cur) (auto split: if_splits)

lemma join_Cons_Nil: "join (p # ps) = [] \<longleftrightarrow> p = [] \<and> ps = []"
  by (cases ps) auto

lemma parse_line_word_defined:
  "is_defined (parse_line line n fp) \<longleftrightarrow> selik_word (parse_line line n fp) \<noteq> []"
proof -
  have "join (take i (split (clean line))) \<noteq> []"
    if "chinese_start (split (clean line)) = Some i" "i \<noteq> 0" for i
  proof -
    from that(1) have "i < length (split (clean line))" by (simp add: chinese_start_Some)
    then obtain p ps where ps: "split (clean line) = p # ps"
      by (cases "split (clean line)") auto
    then have "p \<noteq> []" using split_from_nonempty [of p "[]" "clean line"]
      by (simp add: split_def)
    moreover from that(2) obtain k where "i = Suc k" by (cases i) auto
    ultimately show ?thesis using ps by (simp add: join_Cons_Nil)
  qed
  then show ?thesis
    by (simp add: parse_line_def Let_def VocabEntry_def split: option.splits)
qed

lemma load_file_defined_words:
  assumes "\<forall>e\<in>set (entries a). is_defined e \<longrightarrow> selik_word e \<noteq> []"
  shows "\<forall>e\<in>set (entries (load_file fp lines a)). is_defined e \<longrightarrow> selik_word e \<noteq> []"
  using assms by (auto simp: load_file_def parse_line_word_defined)

lemmas analyzer_eval = new_analyzer_def load_file_def analyze_def

text \<open>
  Claim C7. For an analyzer whose tables are still empty and whose entries satisfy the
  invariant of the data model (a defined entry has a non-empty word, which every entry made
  by \<open>parse_line\<close> does): \<open>analyze\<close> stores exactly the undefined entries as undefined;
  a pair (word, cluster) is reported as word duplicate exactly when the cluster is the list
  of all defined entries with that word and has more than one member; a pair
  ((meaning, part of speech), cluster) is reported as meaning duplicate exactly when the
  cluster is the list of all defined entries with that meaning and that part of speech and
  has more than one member; each key is reported once. Hence two defined entries with the
  word \<open>mira\<close> (the only ones) form the cluster of \<open>mira\<close>, of size 2, and are in no
  other word cluster; and two entries in one meaning cluster never differ in their part of
  speech.
\<close>

theorem analyze_clusters:
  assumes "selik_duplicates a = []" and "meaning_duplicates a = []"
    and "\<forall>e\<in>set (entries a). is_defined e \<longrightarrow> selik_word e \<noteq> []"
  shows "undefined_entries (analyze a) = filter (\<lambda>e. \<not> is_defined e) (entries a)
    \<and> distinct (map fst (selik_duplicates (analyze a)))
    \<and> (\<forall>k c. (k, c) \<in> set (selik_duplicates (analyze a)) \<longleftrightarrow>
          c = filter (\<lambda>e. is_defined e \<and> selik_word e = k) (entries a) \<and> length c > 1)
    \<and> distinct (map fst (meaning_duplicates (analyze a)))
    \<and> (\<forall>k c. (k, c) \<in> set (meaning_duplicates (analyze a)) \<longleftrightarrow>
          c = filter (\<lambda>e. is_defined e \<and> (chinese_meaning e, part_of_speech e) = k) (entries a)
          \<and> length c > 1)
    \<and> (\<forall>e1 e2. filter (\<lambda>e. is_defined e \<and> selik_word e = lit ''mira'') (entries a) = [e1, e2] \<longrightarrow>
          (lit ''mira'', [e1, e2]) \<in> set (selik_duplicates (analyze a))
          \<and> (\<forall>k c. (k, c) \<in> set (selik_duplicates (analyze a)) \<and> (e1 \<in> set c \<or> e2 \<in> set c)
                \<longrightarrow> k = lit ''mira'' \<and> c = [e1, e2]))
    \<and> (\<forall>k c e1 e2. (k, c) \<in> set (meaning_duplicates (analyze a)) \<and> e1 \<in> set c \<and> e2 \<in> set c
          \<longrightarrow> chinese_meaning e1 = chinese_meaning e2 \<and> part_of_speech e1 = part_of_speech e2)"
proof -
  let ?d = "filter is_defined (entries a)"
  let ?W = "\<lambda>e. selik_word e \<noteq> []"
  let ?T = "\<lambda>e::vocab_entry. True"
  let ?mk = "\<lambda>e. (chinese_meaning e, part_of_speech e)"
  have sd: "selik_duplicates (analyze a) =
      filter (\<lambda>(k, v). length v > 1) (group_into ?W selik_word ?d [])"
    using assms(1) by (simp add: analyze_def group_into_def Let_def)
  have md: "meaning_duplicates (analyze a) =
      filter (\<lambda>(k, v). length v > 1) (group_into ?T ?mk ?d [])"
    using assms(2) by (simp add: analyze_def group_into_def Let_def)
  have fw: "filter (\<lambda>e. ?W e \<and> selik_word e = k) ?d
      = filter (\<lambda>e. is_defined e \<and> selik_word e = k) (entries a)" for k
    using assms(3) by (auto intro: filter_cong)
  have fm: "filter (\<lambda>e. ?T e \<and> ?mk e = k) ?d
      = filter (\<lambda>e. is_defined e \<and> ?mk e = k) (entries a)" for k
    by (auto intro: filter_cong)
  have u: "undefined_entries (analyze a) = filter (\<lambda>e. \<not> is_defined e) (entries a)"
    by (simp add: analyze_def Let_def)
  have dw: "distinct (map fst (selik_duplicates (analyze a)))"
    unfolding sd by (intro distinct_map_filter distinct_group_into) simp
  have dm: "distinct (map fst (meaning_duplicates (analyze a)))"
    unfolding md by (intro distinct_map_filter distinct_group_into) simp
  have cw: "(k, c) \<in> set (selik_duplicates (analyze a)) \<longleftrightarrow>
          c = filter (\<lambda>e. is_defined e \<and> selik_word e = k) (entries a) \<and> length c > 1" for k c
    unfolding sd clusters_iff fw ..
  have cm: "(k, c) \<in> set (meaning_duplicates (analyze a)) \<longleftrightarrow>
          c = filter (\<lambda>e. is_defined e \<and> ?mk e = k) (entries a) \<and> length c > 1" for k c
    unfolding md clusters_iff fm ..
  have mira: "(lit ''mira'', [e1, e2]) \<in> set (selik_duplicates (analyze a))
          \<and> (\<forall>k c. (k, c) \<in> set (selik_duplicates (analyze a)) \<and> (e1 \<in> set c \<or> e2 \<in> set c)
                \<longrightarrow> k = lit ''mira'' \<and> c = [e1, e2])"
    if f: "filter (\<lambda>e. is_defined e \<and> selik_word e = lit ''mira'') (entries a) = [e1, e2]"
    for e1 e2
  proof -
    have m: "selik_word e1 = lit ''mira'' \<and> selik_word e2 = lit ''mira''"
    proof -
      have "e1 \<in> set [e1, e2]" "e2 \<in> set [e1, e2]" by simp_all
      then show ?thesis unfolding f [symmetric] by simp
    qed
    have 1: "(lit ''mira'', [e1, e2]) \<in> set (selik_duplicates (analyze a))"
      unfolding cw using f by simp
    have 2: "k = lit ''mira'' \<and> c = [e1, e2]"
      if "(k, c) \<in> set (selik_duplicates (analyze a))" "e1 \<in> set c \<or> e2 \<in> set c" for k c
    proof -
      from that(1) have c: "c = filter (\<lambda>e. is_defined e \<and> selik_word e = k) (entries a)"
        unfolding cw by simp
      with that(2) m have "k = lit ''mira''" by auto
      with c f show ?thesis by simp
    qed
    from 1 2 show ?thesis by blast
  qed
  have pos: "chinese_meaning e1 = chinese_meaning e2 \<and> part_of_speech e1 = part_of_speech e2"
    if "(k, c) \<in> set (meaning_duplicates (analyze a))" "e1 \<in> set c" "e2 \<in> set c"
    for k c e1 e2
  proof -
    from that(1) have "c = filter (\<lambda>e. is_defined e \<and> ?mk e = k) (entries a)"
      unfolding cm by simp
    with that(2,3) have "?mk e1 = k" "?mk e2 = k" by auto
    then show ?thesis by (metis prod.inject)
  qed
  show ?thesis
  proof (intro conjI)
    show "undefined_entries (analyze a) = filter (\<lambda>e. \<not> is_defined e) (entries a)"
      by (rule u)
    show "distinct (map fst (selik_duplicates (analyze a)))" by (rule dw)
    show "distinct (map fst (meaning_duplicates (analyze a)))" by (rule dm)
    show "\<forall>k c. (k, c) \<in> set (selik_duplicates (analyze a)) \<longleftrightarrow>
          c = filter (\<lambda>e. is_defined e \<and> selik_word e = k) (entries a) \<and> length c > 1"
      using cw by simp
    show "\<forall>k c. (k, c) \<in> set (meaning_duplicates (analyze a)) \<longleftrightarrow>
          c = filter (\<lambda>e. is_defined e \<and> (chinese_meaning e, part_of_speech e) = k) (entries a)
          \<and> length c > 1"
      using cm by simp
    show "\<forall>e1 e2. filter (\<lambda>e. is_defined e \<and> selik_word e = lit ''mira'') (entries a) = [e1, e2] \<longrightarrow>
          (lit ''mira'', [e1, e2]) \<in> set (selik_duplicates (analyze a))
          \<and> (\<forall>k c. (k, c) \<in> set (selik_duplicates (analyze a)) \<and> (e1 \<in> set c \<or> e2 \<in> set c)
                \<longrightarrow> k = lit ''mira'' \<and> c = [e1, e2])"
      using mira by (intro allI impI)
    show "\<forall>k c e1 e2. (k, c) \<in> set (meaning_duplicates (analyze a)) \<and> e1 \<in> set c \<and> e2 \<in> set c
          \<longrightarrow> chinese_meaning e1 = chinese_meaning e2 \<and> part_of_speech e1 = part_of_speech e2"
    proof (intro allI impI)
      fix k c e1 e2
      assume "(k, c) \<in> set (meaning_duplicates (analyze a)) \<and> e1 \<in> set c \<and> e2 \<in> set c"
      then show "chinese_meaning e1 = chinese_meaning e2 \<and> part_of_speech e1 = part_of_speech e2"
        using pos [of k c e1 e2] by simp
    qed
  qed
qed


lemma sample_entries:
  "entries (load_file (lit ''v.txt'') sample_lines new_analyzer) =
     [VocabEntry 1 (sample_lines ! 0) (lit ''mira'') [0x6708] (lit ''n.'') True (lit ''v.txt''),
      VocabEntry 2 (sample_lines ! 1) (lit ''mira'') [0x770B] (lit ''v.'') True (lit ''v.txt''),
      VocabEntry 3 (sample_lines ! 2) (lit ''sola'') [0x770B] (lit ''n.'') True (lit ''v.txt''),
      VocabEntry 4 (sample_lines ! 3) [] [0x5FEB, 0x901F] (lit ''adj.'') False (lit ''v.txt'')]"
  by (simp add: sample_lines_def analyzer_eval str_eval)

theorem analyze_clusters_witness:
  "selik_duplicates (load_file (lit ''v.txt'') sample_lines new_analyzer) = []
   \<and> meaning_duplicates (load_file (lit ''v.txt'') sample_lines new_analyzer) = []
   \<and> list_all (\<lambda>e. is_defined e \<longrightarrow> selik_word e \<noteq> [])
         (entries (load_file (lit ''v.txt'') sample_lines new_analyzer))
   \<and> (lit ''mira'',
        [VocabEntry 1 (sample_lines ! 0) (lit ''mira'') [0x6708] (lit ''n.'') True (lit ''v.txt''),
         VocabEntry 2 (sample_lines ! 1) (lit ''mira'') [0x770B] (lit ''v.'') True (lit ''v.txt'')])
       \<in> set (selik_duplicates (analyze (load_file (lit ''v.txt'') sample_lines new_analyzer)))
   \<and> undefined_entries (analyze (load_file (lit ''v.txt'') sample_lines new_analyzer))
       = [VocabEntry 4 (sample_lines ! 3) [] [0x5FEB, 0x901F] (lit ''adj.'') False (lit ''v.txt'')]"
proof -
  let ?A = "load_file (lit ''v.txt'') sample_lines new_analyzer"
  let ?E1 = "VocabEntry 1 (sample_lines ! 0) (lit ''mira'') [0x6708] (lit ''n.'') True (lit ''v.txt'')"
  let ?E2 = "VocabEntry 2 (sample_lines ! 1) (lit ''mira'') [0x770B] (lit ''v.'') True (lit ''v.txt'')"
  have h1: "selik_duplicates ?A = []" by (simp add: analyzer_eval)
  have h2: "meaning_duplicates ?A = []" by (simp add: analyzer_eval)
  have h3: "\<forall>e\<in>set (entries ?A). is_defined e \<longrightarrow> selik_word e \<noteq> []"
    unfolding sample_entries by (simp add: VocabEntry_def lit_def)
  have f: "filter (\<lambda>e. is_defined e \<and> selik_word e = lit ''mira'') (entries ?A) = [?E1, ?E2]"
    unfolding sample_entries by (simp add: VocabEntry_def lit_def)
  have u: "filter (\<lambda>e. \<not> is_defined e) (entries ?A)
      = [VocabEntry 4 (sample_lines ! 3) [] [0x5FEB, 0x901F] (lit ''adj.'') False (lit ''v.txt'')]"
    unfolding sample_entries by (simp add: VocabEntry_def)
  note r = analyze_clusters [OF h1 h2 h3]
  from r have "undefined_entries (analyze ?A) = filter (\<lambda>e. \<not> is_defined e) (entries ?A)"
    by (elim conjE)
  moreover from r have "\<forall>e1 e2.
      filter (\<lambda>e. is_defined e \<and> selik_word e = lit ''mira'') (entries ?A) = [e1, e2] \<longrightarrow>
          (lit ''mira'', [e1, e2]) \<in> set (selik_duplicates (analyze ?A))
          \<and> (\<forall>k c. (k, c) \<in> set (selik_duplicates (analyze ?A)) \<and> (e1 \<in> set c \<or> e2 \<in> set c)
                \<longrightarrow> k = lit ''mira'' \<and> c = [e1, e2])"
    by (elim conjE)
  then have "(lit ''mira'', [?E1, ?E2]) \<in> set (selik_duplicates (analyze ?A))"
    using f by blast
  ultimately show ?thesis using h1 h2 h3 u by (simp add: list_all_iff)
qed

section \<open>Properties of the quiz loop\<close>

lemma map_of_dict_set:
  "map_of (dict_set k v d) k' = (if k' = k then Some v else map_of d k')"
  by (induction d) auto

lemma set_dict_set: "snd ` set (dict_set k v d) \<subseteq> insert v (snd ` set d)"
proof (induction d)
  case Nil
  show ?case by simp
next
  case (Cons p d)
  obtain k' v' where p: "p = (k', v')" by (cases p)
  show ?case
  proof (cases "k' = k")
    case True
    with p show ?thesis by auto
  next
    case False
    with p Cons.IH show ?thesis by auto
  qed
qed

lemma stats_updates:
  "st\<lparr>asked := a\<rparr> = \<lparr>asked = a, correct = correct st, meaning = meaning st\<rparr>"
  "st\<lparr>asked := a, correct := c\<rparr> = \<lparr>asked = a, correct = c, meaning = meaning st\<rparr>"
  by (cases st; simp)+

lemma record_answer_eq: "record_answer w m ans memory = dict_set w (answered w m ans memory) memory"
  by (simp add: record_answer_def answered_def Let_def stats_updates split: option.splits)

lemma map_of_record_answer:
  "map_of (record_answer w m ans memory) w' =
     (if w' = w then Some (answered w m ans memory) else map_of memory w')"
  by (simp add: record_answer_eq map_of_dict_set)

lemma lower_cp_nonempty: "lower_cp c \<noteq> []"
  by (simp add: lower_cp_def)

lemma lower_cp_q: "lower_cp c = [0x71] \<longleftrightarrow> c = 0x71 \<or> c = 0x51"
  by (auto simp: lower_cp_def)

lemma lower_q: "lower s = lit ''q'' \<longleftrightarrow> s = lit ''q'' \<or> s = lit ''Q''"
proof (cases s)
  case Nil
  then show ?thesis by (simp add: lower_def lit_def)
next
  case (Cons c cs)
  show ?thesis
  proof (cases cs)
    case Nil
    with Cons show ?thesis using lower_cp_q [of c] by (simp add: lower_def lit_def)
  next
    case (Cons d ds)
    have "length (lower_cp c) \<ge> 1" "length (lower_cp d) \<ge> 1"
      using lower_cp_nonempty [of c] lower_cp_nonempty [of d]
      by (simp_all add: Suc_le_eq)
    then have "length (lower s) \<ge> 2" using \<open>s = c # cs\<close> Cons by (simp add: lower_def)
    moreover have "length (lit ''q'') = 1" by (simp add: lit_def)
    ultimately have "lower s \<noteq> lit ''q''" by auto
    with \<open>s = c # cs\<close> Cons show ?thesis by (simp add: lit_def)
  qed
qed

lemma quiz_loop_quit:
  "lower (strip line) = lit ''q'' \<Longrightarrow>
     quiz_loop ((w, m) # words) (line # inputs) memory = (Quit, [(w, m)], memory)"
  by simp

lemma quiz_loop_answer:
  "lower (strip line) \<noteq> lit ''q'' \<Longrightarrow>
     quiz_loop ((w, m) # words) (line # inputs) memory =
       (case quiz_loop words inputs (record_answer w m (strip line) memory) of
          (e, shown, memory') \<Rightarrow> (e, (w, m) # shown, memory'))"
  by (simp add: Let_def)

lemma final_memory_simps:
  "final_memory (quiz_loop [] inputs memory) = memory"
  "final_memory (quiz_loop ((w, m) # words) [] memory) = memory"
  "lower (strip line) = lit ''q'' \<Longrightarrow>
     final_memory (quiz_loop ((w, m) # words) (line # inputs) memory) = memory"
  "lower (strip line) \<noteq> lit ''q'' \<Longrightarrow>
     final_memory (quiz_loop ((w, m) # words) (line # inputs) memory) =
       final_memory (quiz_loop words inputs (record_answer w m (strip line) memory))"
  by (simp_all add: final_memory_def Let_def split: prod.splits)

text \<open>An invariant of the memory that every answered prompt keeps is kept by the loop.\<close>

lemma quiz_loop_preserves:
  assumes step: "\<And>w m ans mem. P mem \<Longrightarrow> lower ans \<noteq> lit ''q'' \<Longrightarrow> P (record_answer w m ans mem)"
    and "P memory"
  shows "P (final_memory (quiz_loop words inputs memory))"
  using assms(2)
proof (induction words inputs memory rule: quiz_loop.induct)
  case (1 inputs memory)
  then show ?case by (simp add: final_memory_def)
next
  case (2 w m words memory)
  then show ?case by (simp add: final_memory_def)
next
  case (3 w m words line inputs memory)
  show ?case
  proof (cases "lower (strip line) = lit ''q''")
    case True
    with 3 show ?thesis by (simp add: final_memory_simps del: quiz_loop.simps)
  next
    case False
    from step [OF "3.prems" False] have "P (record_answer w m (strip line) memory)" .
    with "3.IH" [OF refl False] False show ?thesis
      by (simp add: final_memory_simps del: quiz_loop.simps)
  qed
qed


lemma answered_valid:
  assumes "\<forall>st\<in>snd ` set memory. 0 \<le> correct st \<and> correct st \<le> asked st"
  shows "0 \<le> correct (answered w m ans memory)
       \<and> correct (answered w m ans memory) \<le> asked (answered w m ans memory)"
proof (cases "map_of memory w")
  case None
  then show ?thesis by (simp add: answered_def)
next
  case (Some st)
  then have "st \<in> snd ` set memory" by (force dest: map_of_SomeD)
  with assms have "0 \<le> correct st \<and> correct st \<le> asked st" by blast
  with Some show ?thesis by (simp add: answered_def)
qed

lemma record_answer_valid:
  assumes "\<forall>st\<in>snd ` set memory. 0 \<le> correct st \<and> correct st \<le> asked st"
  shows "\<forall>st\<in>snd ` set (record_answer w m ans memory). 0 \<le> correct st \<and> correct st \<le> asked st"
proof
  fix st
  assume "st \<in> snd ` set (record_answer w m ans memory)"
  then have "st = answered w m ans memory \<or> st \<in> snd ` set memory"
    using set_dict_set [of w "answered w m ans memory" memory]
    by (auto simp: record_answer_eq)
  then show "0 \<le> correct st \<and> correct st \<le> asked st"
    using answered_valid [OF assms] assms by blast
qed

lemma record_answer_grows:
  assumes "map_of memory k = Some st"
  shows "\<exists>st'. map_of (record_answer w m ans memory) k = Some st'
           \<and> asked st \<le> asked st' \<and> correct st \<le> correct st' \<and> meaning st' = meaning st"
  using assms by (auto simp: map_of_record_answer answered_def)

text \<open>
  Claim C9. From a memory in which every record satisfies
  \<open>0 \<le> correct \<le> asked\<close>, every record satisfies it after one answered prompt and
  after the whole quiz loop, whatever the words and the inputs and however the loop ends;
  and a record that exists keeps existing with \<open>asked\<close> and \<open>correct\<close> at least what
  they were, after one answered prompt and after the loop.
\<close>

theorem quiz_loop_invariant:
  assumes "\<forall>st\<in>snd ` set memory. 0 \<le> correct st \<and> correct st \<le> asked st"
  shows "(\<forall>st\<in>snd ` set (record_answer w m ans memory). 0 \<le> correct st \<and> correct st \<le> asked st)
    \<and> (\<forall>st\<in>snd ` set (final_memory (quiz_loop words inputs memory)).
          0 \<le> correct st \<and> correct st \<le> asked st)
    \<and> (\<forall>k st. map_of memory k = Some st \<longrightarrow>
          (\<exists>st'. map_of (record_answer w m ans memory) k = Some st'
                 \<and> asked st \<le> asked st' \<and> correct st \<le> correct st'))
    \<and> (\<forall>k st. map_of memory k = Some st \<longrightarrow>
          (\<exists>st'. map_of (final_memory (quiz_loop words inputs memory)) k = Some st'
                 \<and> asked st \<le> asked st' \<and> correct st \<le> correct st'))"
proof (intro conjI allI impI)
  show "\<forall>st\<in>snd ` set (record_answer w m ans memory). 0 \<le> correct st \<and> correct st \<le> asked st"
    using assms by (rule record_answer_valid)
  show "\<forall>st\<in>snd ` set (final_memory (quiz_loop words inputs memory)).
          0 \<le> correct st \<and> correct st \<le> asked st"
  proof (rule quiz_loop_preserves
      [where P = "\<lambda>mem::memory. \<forall>st\<in>snd ` set mem. 0 \<le> correct st \<and> correct st \<le> asked st"])
    show "\<forall>st\<in>snd ` set memory. 0 \<le> correct st \<and> correct st \<le> asked st" by (rule assms)
  next
    fix w m ans and mem :: memory
    assume "\<forall>st\<in>snd ` set mem. 0 \<le> correct st \<and> correct st \<le> asked st"
    then show "\<forall>st\<in>snd ` set (record_answer w m ans mem).
        0 \<le> correct st \<and> correct st \<le> asked st"
      by (rule record_answer_valid)
  qed
next
  fix k st
  assume k: "map_of memory k = Some st"
  from record_answer_grows [OF k]
  show "\<exists>st'. map_of (record_answer w m ans memory) k = Some st'
                 \<and> asked st \<le> asked st' \<and> correct st \<le> correct st'"
    by blast
  let ?P = "\<lambda>mem. \<exists>st'. map_of mem k = Some st' \<and> asked st \<le> asked st' \<and> correct st \<le> correct st'"
  have "?P (final_memory (quiz_loop words inputs memory))"
  proof (rule quiz_loop_preserves [where P = ?P])
    show "?P memory" using k by simp
  next
    fix w m ans and mem :: memory
    assume "?P mem"
    then obtain s1 where s1: "map_of mem k = Some s1" "asked st \<le> asked s1" "correct st \<le> correct s1"
      by blast
    from record_answer_grows [OF s1(1), of w m ans] s1(2,3)
    show "?P (record_answer w m ans mem)" by force
  qed
  then show "\<exists>st'. map_of (final_memory (quiz_loop words inputs memory)) k = Some st'
                 \<and> asked st \<le> asked st' \<and> correct st \<le> correct st'" .
qed


lemmas quiz_eval = str_eval record_answer_def final_memory_def

theorem quiz_loop_invariant_witness:
  "list_all (\<lambda>st. 0 \<le> correct st \<and> correct st \<le> asked st) (map snd sample_memory)
   \<and> final_memory (quiz_loop sample_words [lit ''mira'', lit ''sol'', lit ''Q''] sample_memory)
       = [(lit ''mira'', \<lparr>asked = 4, correct = 3, meaning = Some [0x6708]\<rparr>),
          (lit ''sola'', \<lparr>asked = 1, correct = 0, meaning = Some [0x770B]\<rparr>)]
   \<and> list_all (\<lambda>st. 0 \<le> correct st \<and> correct st \<le> asked st)
        (map snd (final_memory
           (quiz_loop sample_words [lit ''mira'', lit ''sol'', lit ''Q''] sample_memory)))"
proof -
  have h: "\<forall>st\<in>snd ` set sample_memory. 0 \<le> correct st \<and> correct st \<le> asked st"
    by (simp add: sample_memory_def)
  have "\<forall>st\<in>snd ` set (final_memory
           (quiz_loop sample_words [lit ''mira'', lit ''sol'', lit ''Q''] sample_memory)).
          0 \<le> correct st \<and> correct st \<le> asked st"
    using quiz_loop_invariant [OF h] by blast
  then have a: "list_all (\<lambda>st. 0 \<le> correct st \<and> correct st \<le> asked st)
        (map snd (final_memory
           (quiz_loop sample_words [lit ''mira'', lit ''sol'', lit ''Q''] sample_memory)))"
    by (simp add: list_all_iff)
  have b: "final_memory (quiz_loop sample_words [lit ''mira'', lit ''sol'', lit ''Q''] sample_memory)
       = [(lit ''mira'', \<lparr>asked = 4, correct = 3, meaning = Some [0x6708]\<rparr>),
          (lit ''sola'', \<lparr>asked = 1, correct = 0, meaning = Some [0x770B]\<rparr>)]"
    by (simp add: sample_memory_def sample_words_def quiz_eval)
  have c: "list_all (\<lambda>st. 0 \<le> correct st \<and> correct st \<le> asked st) (map snd sample_memory)"
    by (simp add: sample_memory_def)
  from a b c show ?thesis by blast
qed

lemma quit_word_step:
  assumes w: "w = lit ''q'' \<or> w = lit ''Q''" and a: "lower ans \<noteq> lit ''q''"
  shows "(case map_of (record_answer w' m ans mem) w of None \<Rightarrow> 0 | Some st \<Rightarrow> correct st)
       = (case map_of mem w of None \<Rightarrow> 0 | Some st \<Rightarrow> correct st)"
proof (cases "w' = w")
  case True
  from w have "lower w = lit ''q''" by (simp add: lower_q)
  with a have "ans \<noteq> w" by auto
  with True show ?thesis
    by (simp add: map_of_record_answer answered_def split: option.splits)
next
  case False
  then show ?thesis by (simp add: map_of_record_answer)
qed

text \<open>
  Claim C10. Let the word of a quiz item be \<open>q\<close> or \<open>Q\<close>. Typing the word at its
  prompt (with or without surrounding whitespace) ends the loop with the memory untouched.
  And in every run of the quiz loop, with any words and inputs, the \<open>correct\<close> count of
  that word stays what it was: a record that exists keeps its count, and a record created
  during the run has the count 0.
\<close>

theorem quit_word_never_correct:
  assumes "w = lit ''q'' \<or> w = lit ''Q''"
  shows "(strip line = w \<longrightarrow>
            quiz_loop ((w, m) # words) (line # inputs) memory = (Quit, [(w, m)], memory))
    \<and> (\<forall>st. map_of memory w = Some st \<longrightarrow>
          (\<exists>st'. map_of (final_memory (quiz_loop ws ins memory)) w = Some st'
                 \<and> correct st' = correct st))
    \<and> (map_of memory w = None \<longrightarrow>
          (\<forall>st'. map_of (final_memory (quiz_loop ws ins memory)) w = Some st'
                 \<longrightarrow> correct st' = 0))"
proof -
  let ?c = "\<lambda>mem::memory. case map_of mem w of None \<Rightarrow> 0 | Some st \<Rightarrow> correct st"
  let ?P = "\<lambda>mem::memory. ?c mem = ?c memory \<and> (map_of memory w \<noteq> None \<longrightarrow> map_of mem w \<noteq> None)"
  have P: "?P (final_memory (quiz_loop ws ins memory))"
  proof (rule quiz_loop_preserves [where P = ?P])
    show "?P memory" by simp
  next
    fix w' m ans and mem :: memory
    assume p: "?P mem" and a: "lower ans \<noteq> lit ''q''"
    from quit_word_step [OF assms a, of w' m mem] p
    show "?P (record_answer w' m ans mem)"
      by (auto simp: map_of_record_answer)
  qed
  have 1: "strip line = w \<longrightarrow>
            quiz_loop ((w, m) # words) (line # inputs) memory = (Quit, [(w, m)], memory)"
    using assms by (auto simp: lower_q)
  have 2: "\<forall>st. map_of memory w = Some st \<longrightarrow>
          (\<exists>st'. map_of (final_memory (quiz_loop ws ins memory)) w = Some st'
                 \<and> correct st' = correct st)"
    using P by (auto split: option.splits)
  have 3: "map_of memory w = None \<longrightarrow>
          (\<forall>st'. map_of (final_memory (quiz_loop ws ins memory)) w = Some st'
                 \<longrightarrow> correct st' = 0)"
    using P by (auto split: option.splits)
  from 1 2 3 show ?thesis by (intro conjI)
qed

theorem quit_word_never_correct_witness:
  "lit ''q'' = lit ''q'' \<and> strip (lit '' q '') = lit ''q''
   \<and> quiz_loop [(lit ''q'', [0x95EE])] [lit '' q ''] sample_memory
       = (Quit, [(lit ''q'', [0x95EE])], sample_memory)
   \<and> map_of sample_memory (lit ''q'') = None
   \<and> final_memory (quiz_loop (rev sample_words) [lit ''q'', lit ''sola''] sample_memory)
       = sample_memory"
proof -
  have w: "lit ''q'' = lit ''q'' \<or> lit ''q'' = lit ''Q''" by simp
  have s: "strip (lit '' q '') = lit ''q''" by (simp add: str_eval)
  have n: "map_of sample_memory (lit ''q'') = None" by (simp add: sample_memory_def lit_def)
  from quit_word_never_correct [OF w, of "lit '' q ''" "[0x95EE]" "[]" "[]" sample_memory] s
  have "quiz_loop [(lit ''q'', [0x95EE])] [lit '' q ''] sample_memory
       = (Quit, [(lit ''q'', [0x95EE])], sample_memory)" by blast
  moreover have "final_memory (quiz_loop (rev sample_words) [lit ''q'', lit ''sola''] sample_memory)
       = sample_memory"
    by (simp add: sample_words_def quiz_eval)
  ultimately show ?thesis using s n by simp
qed

text \<open>
  Claim C3 does not hold as stated: the input is stripped before it is compared with
  \<open>q\<close>, so an input such as \<open>q\<close> after a blank, which is not equal to \<open>q\<close> in any
  letter case, ends the session too, and the prompted word gets no record.
\<close>

theorem padded_q_counterexample:
  "lit '' q'' \<noteq> lit ''q'' \<and> lit '' q'' \<noteq> lit ''Q'' \<and> lower (lit '' q'') \<noteq> lit ''q''
   \<and> quiz_loop [(lit ''sola'', [0x770B])] [lit '' q''] [] = (Quit, [(lit ''sola'', [0x770B])], [])
   \<and> map_of (final_memory (quiz_loop [(lit ''sola'', [0x770B])] [lit '' q''] [])) (lit ''sola'') = None"
  by (simp add: quiz_eval)

text \<open>
  Claim C3, amended. At every prompt the input is first stripped of surrounding
  whitespace. If the stripped input is \<open>q\<close> or \<open>Q\<close> (and only then it lowers to
  \<open>q\<close>), the loop ends at once: the prompt is the last one shown, and the memory is
  unchanged. Any other input makes the loop go on with the next word after the record of
  the prompted word got \<open>asked\<close> increased by one (from 0, with the prompted meaning, if
  there was no record) and \<open>correct\<close> increased by one exactly when the stripped input
  equals the word; no other record changes. Hence from an empty memory a wrong answer
  followed by \<open>q\<close> leaves one record, with \<open>asked = 1\<close> and \<open>correct = 0\<close>, and
  shows the prompts of the first two words only.
\<close>

theorem quiz_prompt_step:
  "(lower (strip line) = lit ''q'' \<longleftrightarrow> strip line = lit ''q'' \<or> strip line = lit ''Q'')
   \<and> (lower (strip line) = lit ''q'' \<longrightarrow>
        quiz_loop ((w, m) # words) (line # inputs) memory = (Quit, [(w, m)], memory))
   \<and> (lower (strip line) \<noteq> lit ''q'' \<longrightarrow>
        quiz_loop ((w, m) # words) (line # inputs) memory =
          (case quiz_loop words inputs (record_answer w m (strip line) memory) of
             (e, shown, memory') \<Rightarrow> (e, (w, m) # shown, memory'))
        \<and> map_of (record_answer w m (strip line) memory) w =
            Some \<lparr>asked = (case map_of memory w of None \<Rightarrow> 0 | Some st \<Rightarrow> asked st) + 1,
                  correct = (case map_of memory w of None \<Rightarrow> 0 | Some st \<Rightarrow> correct st)
                              + (if strip line = w then 1 else 0),
                  meaning = (case map_of memory w of None \<Rightarrow> Some m | Some st \<Rightarrow> meaning st)\<rparr>
        \<and> (\<forall>w'. w' \<noteq> w \<longrightarrow> map_of (record_answer w m (strip line) memory) w' = map_of memory w'))
   \<and> (lower (strip a) \<noteq> lit ''q'' \<and> strip a \<noteq> w \<and> lower (strip b) = lit ''q'' \<longrightarrow>
        quiz_loop ((w, m) # (w2, m2) # words) (a # b # inputs) []
          = (Quit, [(w, m), (w2, m2)], [(w, \<lparr>asked = 1, correct = 0, meaning = Some m\<rparr>)]))"
proof (intro conjI impI)
  show "lower (strip line) = lit ''q'' \<longleftrightarrow> strip line = lit ''q'' \<or> strip line = lit ''Q''"
    by (rule lower_q)
  show "quiz_loop ((w, m) # words) (line # inputs) memory = (Quit, [(w, m)], memory)"
    if "lower (strip line) = lit ''q''"
    using that by (rule quiz_loop_quit)
  show "quiz_loop ((w, m) # words) (line # inputs) memory =
          (case quiz_loop words inputs (record_answer w m (strip line) memory) of
             (e, shown, memory') \<Rightarrow> (e, (w, m) # shown, memory'))"
    if "lower (strip line) \<noteq> lit ''q''"
    using that by (rule quiz_loop_answer)
  show "map_of (record_answer w m (strip line) memory) w =
            Some \<lparr>asked = (case map_of memory w of None \<Rightarrow> 0 | Some st \<Rightarrow> asked st) + 1,
                  correct = (case map_of memory w of None \<Rightarrow> 0 | Some st \<Rightarrow> correct st)
                              + (if strip line = w then 1 else 0),
                  meaning = (case map_of memory w of None \<Rightarrow> Some m | Some st \<Rightarrow> meaning st)\<rparr>"
    by (simp add: map_of_record_answer answered_def)
  show "\<forall>w'. w' \<noteq> w \<longrightarrow> map_of (record_answer w m (strip line) memory) w' = map_of memory w'"
    by (simp add: map_of_record_answer)
  show "quiz_loop ((w, m) # (w2, m2) # words) (a # b # inputs) []
          = (Quit, [(w, m), (w2, m2)], [(w, \<lparr>asked = 1, correct = 0, meaning = Some m\<rparr>)])"
    if "lower (strip a) \<noteq> lit ''q'' \<and> strip a \<noteq> w \<and> lower (strip b) = lit ''q''"
    using that by (simp add: record_answer_def)
qed


theorem quiz_prompt_step_witness:
  "lower (strip (lit ''sol'')) \<noteq> lit ''q'' \<and> strip (lit ''sol'') \<noteq> lit ''sola''
   \<and> lower (strip (lit '' Q '')) = lit ''q''
   \<and> quiz_loop [(lit ''sola'', [0x770B]), (lit ''mira'', [0x6708]), (lit ''ora'', [0x8D70])]
        [lit ''sol'', lit '' Q '', lit ''ora''] []
       = (Quit, [(lit ''sola'', [0x770B]), (lit ''mira'', [0x6708])],
          [(lit ''sola'', \<lparr>asked = 1, correct = 0, meaning = Some [0x770B]\<rparr>)])"
proof -
  have h: "lower (strip (lit ''sol'')) \<noteq> lit ''q'' \<and> strip (lit ''sol'') \<noteq> lit ''sola''
      \<and> lower (strip (lit '' Q '')) = lit ''q''"
    by (simp add: str_eval)
  note r = quiz_prompt_step [where a = "lit ''sol''" and b = "lit '' Q ''" and w = "lit ''sola''"
      and m = "[0x770B]" and ?w2.0 = "lit ''mira''" and ?m2.0 = "[0x6708]"
      and words = "[(lit ''ora'', [0x8D70])]" and inputs = "[lit ''ora'']",
      THEN conjunct2, THEN conjunct2, THEN conjunct2, rule_format]
  from r [OF h] h show ?thesis by simp
qed

lemma quiz_loop_keeps_meaning:
  assumes "map_of memory w = Some st"
  shows "\<exists>st'. map_of (final_memory (quiz_loop words inputs memory)) w = Some st'
           \<and> meaning st' = meaning st"
proof (rule quiz_loop_preserves
    [where P = "\<lambda>mem::memory. \<exists>st'. map_of mem w = Some st' \<and> meaning st' = meaning st"])
  show "\<exists>st'. map_of memory w = Some st' \<and> meaning st' = meaning st" using assms by simp
next
  fix w' m ans and mem :: memory
  assume "\<exists>st'. map_of mem w = Some st' \<and> meaning st' = meaning st"
  then obtain s1 where s1: "map_of mem w = Some s1" "meaning s1 = meaning st" by blast
  from record_answer_grows [OF s1(1), of w' m ans] s1(2)
  show "\<exists>st'. map_of (record_answer w' m ans mem) w = Some st' \<and> meaning st' = meaning st"
    by force
qed

lemma quiz_loop_new_meaning:
  assumes "map_of memory w = None"
    and "map_of (final_memory (quiz_loop words inputs memory)) w = Some st'"
  shows "meaning st' = map_of words w"
  using assms
proof (induction words inputs memory rule: quiz_loop.induct)
  case (1 inputs memory)
  then show ?case by (simp add: final_memory_def)
next
  case (2 w0 m0 words memory)
  then show ?case by (simp add: final_memory_def)
next
  case (3 w0 m0 words line inputs memory)
  show ?case
  proof (cases "lower (strip line) = lit ''q''")
    case True
    with "3.prems" show ?thesis by (simp add: final_memory_simps del: quiz_loop.simps)
  next
    case False
    let ?mem = "record_answer w0 m0 (strip line) memory"
    from False "3.prems"(2)
    have f: "map_of (final_memory (quiz_loop words inputs ?mem)) w = Some st'"
      by (simp add: final_memory_simps del: quiz_loop.simps)
    show ?thesis
    proof (cases "w0 = w")
      case True
      with "3.prems"(1) have "map_of ?mem w = Some (answered w m0 (strip line) memory)"
        and "meaning (answered w m0 (strip line) memory) = Some m0"
        by (simp_all add: map_of_record_answer answered_def)
      from quiz_loop_keeps_meaning [OF this(1), of words inputs] this(2) f True
      show ?thesis by simp
    next
      case neq: False
      with "3.prems"(1) have "map_of ?mem w = None" by (simp add: map_of_record_answer)
      from "3.IH" [OF refl False this f] neq show ?thesis by simp
    qed
  qed
qed

text \<open>
  Claim C6 does not hold as stated: \<open>setdefault\<close> stores the prompted meaning only when it
  creates the record. A word first quizzed with one gloss and quizzed again, in a later
  session, with another still has the first gloss in its record.
\<close>

theorem first_gloss_counterexample:
  "final_memory (quiz_loop [(lit ''sola'', [0x89C2])] [lit ''sola'']
     (final_memory (quiz_loop [(lit ''sola'', [0x770B])] [lit ''sol''] [])))
     = [(lit ''sola'', \<lparr>asked = 2, correct = 1, meaning = Some [0x770B]\<rparr>)]
   \<and> Some [0x770B] \<noteq> Some [0x89C2::nat]"
  by (simp add: quiz_eval)

text \<open>
  Claim C6, amended. After an answered attempt the record of the word has the meaning it
  had before, or the prompted meaning if the attempt created the record. Through a whole
  run of the loop a record that exists keeps its meaning, and a record created during the
  run has the meaning of the first item of that word in the quiz list.
\<close>

theorem meaning_is_first_gloss:
  "(\<exists>st'. map_of (record_answer w m ans memory) w = Some st'
          \<and> meaning st' = (case map_of memory w of None \<Rightarrow> Some m | Some st \<Rightarrow> meaning st))
   \<and> (\<forall>st. map_of memory w = Some st \<longrightarrow>
         (\<exists>st'. map_of (final_memory (quiz_loop words inputs memory)) w = Some st'
                \<and> meaning st' = meaning st))
   \<and> (map_of memory w = None \<longrightarrow>
         (\<forall>st'. map_of (final_memory (quiz_loop words inputs memory)) w = Some st'
                \<longrightarrow> meaning st' = map_of words w))"
proof (intro conjI allI impI)
  show "\<exists>st'. map_of (record_answer w m ans memory) w = Some st'
          \<and> meaning st' = (case map_of memory w of None \<Rightarrow> Some m | Some st \<Rightarrow> meaning st)"
    by (simp add: map_of_record_answer answered_def)
  show "\<exists>st'. map_of (final_memory (quiz_loop words inputs memory)) w = Some st'
                \<and> meaning st' = meaning st"
    if "map_of memory w = Some st" for st
    using that by (rule quiz_loop_keeps_meaning)
  show "meaning st' = map_of words w"
    if "map_of memory w = None"
      and "map_of (final_memory (quiz_loop words inputs memory)) w = Some st'" for st'
    using that by (rule quiz_loop_new_meaning)
qed

theorem meaning_is_first_gloss_witness:
  "map_of sample_memory (lit ''mira'') = Some \<lparr>asked = 3, correct = 2, meaning = Some [0x6708]\<rparr>
   \<and> map_of sample_memory (lit ''sola'') = None
   \<and> map_of [(lit ''mira'', [0x660E]), (lit ''sola'', [0x770B]), (lit ''sola'', [0x89C2])] (lit ''sola'')
       = Some ([0x770B] :: str)
   \<and> final_memory (quiz_loop
        [(lit ''mira'', [0x660E]), (lit ''sola'', [0x770B]), (lit ''sola'', [0x89C2])]
        [lit ''mira'', lit ''sola'', lit ''sola''] sample_memory)
       = [(lit ''mira'', \<lparr>asked = 4, correct = 3, meaning = Some [0x6708]\<rparr>),
          (lit ''sola'', \<lparr>asked = 2, correct = 2, meaning = Some [0x770B]\<rparr>)]
   \<and> (\<exists>st'. map_of (final_memory (quiz_loop
        [(lit ''mira'', [0x660E]), (lit ''sola'', [0x770B]), (lit ''sola'', [0x89C2])]
        [lit ''mira'', lit ''sola'', lit ''sola''] sample_memory)) (lit ''mira'') = Some st'
        \<and> meaning st' = Some [0x6708])"
proof -
  let ?ws = "[(lit ''mira'', [0x660E]), (lit ''sola'', [0x770B]), (lit ''sola'', [0x89C2::nat])]"
  let ?ins = "[lit ''mira'', lit ''sola'', lit ''sola'']"
  have a: "map_of sample_memory (lit ''mira'')
      = Some \<lparr>asked = 3, correct = 2, meaning = Some [0x6708]\<rparr>"
    by (simp add: sample_memory_def)
  have b: "map_of sample_memory (lit ''sola'') = None" by (simp add: sample_memory_def lit_def)
  have c: "map_of ?ws (lit ''sola'') = Some [0x770B]" by (simp add: lit_def)
  have d: "final_memory (quiz_loop ?ws ?ins sample_memory)
       = [(lit ''mira'', \<lparr>asked = 4, correct = 3, meaning = Some [0x6708]\<rparr>),
          (lit ''sola'', \<lparr>asked = 2, correct = 2, meaning = Some [0x770B]\<rparr>)]"
    by (simp add: sample_memory_def quiz_eval)
  from meaning_is_first_gloss [of "lit ''mira''" "[]" "[]" sample_memory ?ws ?ins]
  have "\<forall>st. map_of sample_memory (lit ''mira'') = Some st \<longrightarrow>
         (\<exists>st'. map_of (final_memory (quiz_loop ?ws ?ins sample_memory)) (lit ''mira'') = Some st'
                \<and> meaning st' = meaning st)"
    by (elim conjE)
  with a have "\<exists>st'. map_of (final_memory (quiz_loop ?ws ?ins sample_memory)) (lit ''mira'') = Some st'
        \<and> meaning st' = Some [0x6708]"
    by fastforce
  with a b c d show ?thesis by blast
qed

section \<open>Properties of the selector\<close>

lemma file_items_Inr:
  assumes "file_items fl vocab memory = Inr items"
  shows "items = map (\<lambda>(w, m). (word_rate fl memory w, w, m)) vocab"
  using assms
proof (induction vocab arbitrary: items)
  case Nil
  then show ?case by simp
next
  case (Cons p vocab)
  obtain w m where p: "p = (w, m)" by (cases p)
  from Cons.prems p obtain q rest where
    q: "(if asked (case map_of memory w of None \<Rightarrow> default_stats | Some st \<Rightarrow> st) > 0
         then int_truediv fl (correct (case map_of memory w of None \<Rightarrow> default_stats | Some st \<Rightarrow> st))
                (asked (case map_of memory w of None \<Rightarrow> default_stats | Some st \<Rightarrow> st))
         else Inr 0) = Inr q"
    and rest: "file_items fl vocab memory = Inr rest"
    and items: "items = (one_minus fl q, w, m) # rest"
    by (auto simp: Let_def split: sum.splits)
  have "one_minus fl q = word_rate fl memory w"
    using q
    by (auto simp: word_rate_def error_rate_def int_truediv_def default_stats_def
        split: option.splits if_splits)
  with Cons.IH [OF rest] items p show ?case by simp
qed

lemma memory_items_Inr:
  assumes "memory_items fl memory = Inr items"
  shows "items = map (\<lambda>(w, st). (error_rate fl (asked st) (correct st), w,
                          (case meaning st of None \<Rightarrow> [] | Some m \<Rightarrow> m)))
                   (filter (\<lambda>(w, st). asked st > 0 \<and> correct st < asked st) memory)"
  using assms
proof (induction memory arbitrary: items)
  case Nil
  then show ?case by simp
next
  case (Cons p memory)
  obtain w st where p: "p = (w, st)" by (cases p)
  show ?case
  proof (cases "asked st > 0 \<and> correct st < asked st")
    case False
    with Cons p show ?thesis by auto
  next
    case True
    with Cons.prems p obtain q rest where
      q: "int_truediv fl (correct st) (asked st) = Inr q"
      and rest: "memory_items fl memory = Inr rest"
      and items: "items = (one_minus fl q, w, (case meaning st of None \<Rightarrow> [] | Some m \<Rightarrow> m)) # rest"
      by (auto split: sum.splits)
    have "one_minus fl q = error_rate fl (asked st) (correct st)"
      using q True by (auto simp: error_rate_def int_truediv_def split: if_splits)
    with Cons.IH [OF rest] items p True show ?thesis by simp
  qed
qed

lemma float_overflow_gt_1: "1 < float_overflow"
proof -
  define a :: real where "a = 2 ^ 970"
  have a: "1 \<le> a" unfolding a_def by (rule one_le_power) simp
  have "(2::real) ^ 1024 = 2 ^ (970 + 54)" by simp
  also have "\<dots> = a * 2 ^ 54" unfolding a_def by (rule power_add)
  finally have "float_overflow = a * (2 ^ 54 - 1)"
    unfolding float_overflow_def a_def [symmetric] by (simp only: right_diff_distrib mult_1_right)
  moreover have "(3::real) \<le> 2 ^ 54 - 1" by simp
  then have "1 * (3::real) \<le> a * (2 ^ 54 - 1)" using a by (intro mult_mono) simp_all
  ultimately show ?thesis by simp
qed

lemma int_truediv_unit:
  assumes "0 \<le> c" "c \<le> a" "0 < a"
  shows "int_truediv fl c a = Inr (fl (real_of_int c / real_of_int a))"
proof -
  have "\<bar>real_of_int c / real_of_int a\<bar> \<le> 1" using assms by simp
  with float_overflow_gt_1 show ?thesis by (simp add: int_truediv_def)
qed

lemma file_items_total:
  assumes "\<forall>st\<in>snd ` set memory. 0 \<le> correct st \<and> correct st \<le> asked st"
  shows "\<exists>items. file_items fl vocab memory = Inr items"
proof (induction vocab)
  case Nil
  show ?case by simp
next
  case (Cons p vocab)
  obtain w m where p: "p = (w, m)" by (cases p)
  let ?st = "case map_of memory w of None \<Rightarrow> default_stats | Some st \<Rightarrow> st"
  have v: "0 \<le> correct ?st \<and> correct ?st \<le> asked ?st"
  proof (cases "map_of memory w")
    case None
    then show ?thesis by (simp add: default_stats_def)
  next
    case (Some st)
    then have "st \<in> snd ` set memory" by (force dest: map_of_SomeD)
    with assms Some show ?thesis by auto
  qed
  have "\<exists>q. (if asked ?st > 0 then int_truediv fl (correct ?st) (asked ?st) else Inr 0) = Inr q"
    using v by (simp add: int_truediv_unit)
  with Cons.IH p show ?case by (auto simp: Let_def)
qed

lemma memory_items_total:
  assumes "\<forall>st\<in>snd ` set memory. 0 \<le> correct st"
  shows "\<exists>items. memory_items fl memory = Inr items"
  using assms
proof (induction memory)
  case Nil
  show ?case by simp
next
  case (Cons p memory)
  obtain w st where p: "p = (w, st)" by (cases p)
  from Cons.prems p have c: "0 \<le> correct st" and r: "\<forall>st\<in>snd ` set memory. 0 \<le> correct st"
    by auto
  from Cons.IH [OF r] obtain rest where rest: "memory_items fl memory = Inr rest" by blast
  show ?case
  proof (cases "asked st > 0 \<and> correct st < asked st")
    case False
    with rest p show ?thesis by auto
  next
    case True
    with c have "int_truediv fl (correct st) (asked st)
        = Inr (fl (real_of_int (correct st) / real_of_int (asked st)))"
      by (intro int_truediv_unit) auto
    with rest p True show ?thesis by simp
  qed
qed

lemma sort_reverse_sorted: "sorted_wrt (\<lambda>x y. fst x \<ge> fst y) (sort_reverse items)"
proof -
  have "sorted (map (\<lambda>x. - fst x) (sort_reverse items))"
    unfolding sort_reverse_def by (rule sorted_sort_key)
  then show ?thesis by (simp add: sorted_wrt_map sorted_wrt_iff_nth_less)
qed

lemma mset_sort_reverse: "mset (sort_reverse items) = mset items"
  by (simp add: sort_reverse_def)

lemma sorted_out:
  assumes "\<forall>x\<in>set items. fst x = r (snd x)"
  shows "sorted_wrt (\<lambda>x y. r x \<ge> r y) (map snd (sort_reverse items))"
proof -
  let ?xs = "sort_reverse items"
  have s: "set ?xs = set items" by (simp add: sort_reverse_def)
  have "r (snd (?xs ! i)) \<ge> r (snd (?xs ! j))" if "i < j" "j < length ?xs" for i j
  proof -
    from that have "?xs ! i \<in> set items" "?xs ! j \<in> set items"
      using s nth_mem [of i ?xs] nth_mem [of j ?xs] by auto
    with assms have "fst (?xs ! i) = r (snd (?xs ! i))" "fst (?xs ! j) = r (snd (?xs ! j))"
      by auto
    moreover from sort_reverse_sorted [of items] that have "fst (?xs ! i) \<ge> fst (?xs ! j)"
      by (simp add: sorted_wrt_iff_nth_less)
    ultimately show ?thesis by simp
  qed
  then show ?thesis by (simp add: sorted_wrt_map sorted_wrt_iff_nth_less)
qed


lemma select_words_file:
  assumes "vocab \<noteq> []" and "select_words fl vocab memory None = Inr out"
  shows "out = map snd (sort_reverse (map (\<lambda>(w, m). (word_rate fl memory w, w, m)) vocab))"
proof -
  from assms obtain items where i: "file_items fl vocab memory = Inr items"
    and o: "out = map snd (sort_reverse items)"
    by (auto simp: select_words_def Let_def split: sum.splits)
  from file_items_Inr [OF i] o show ?thesis by simp
qed

lemma select_words_limit:
  "select_words fl vocab memory (Some l) =
     (if l = 0 then select_words fl vocab memory None
      else map_sum id (slice_to l) (select_words fl vocab memory None))"
  by (auto simp: select_words_def Let_def slice_to_def take_map split: sum.splits)

lemma earlier_in_sorted:
  assumes s: "sorted_wrt (\<lambda>x y. r x \<ge> r y) out"
    and a: "a \<in> set out" and b: "b \<in> set out" and lt: "r a < (r b :: real)"
  shows "\<exists>i j. i < j \<and> j < length out \<and> out ! i = b \<and> out ! j = a"
proof -
  from a obtain j where j: "j < length out" "out ! j = a" by (auto simp: in_set_conv_nth)
  from b obtain i where i: "i < length out" "out ! i = b" by (auto simp: in_set_conv_nth)
  have "i \<noteq> j" using i j lt by auto
  moreover have "\<not> j < i"
  proof
    assume "j < i"
    with s i(1) have "r (out ! j) \<ge> r (out ! i)" by (simp add: sorted_wrt_iff_nth_less)
    with i j lt show False by simp
  qed
  ultimately have "i < j" by simp
  with i j show ?thesis by blast
qed

text \<open>
  Claim C2, amended. With a non-empty vocabulary: when \<open>select_words\<close> returns without
  a limit, its result has exactly the pairs of the vocabulary and is sorted descending by
  the error rate of the words, \<open>1 - (correct/asked if asked>0 else 0)\<close> on the word's
  record or on \<open>asked = 0, correct = 0\<close> when it has none, so that a word without a
  record has the rate \<open>1.0 - 0\<close>; a positive limit gives the first \<open>limit\<close> items of
  that result, and the limit 0 gives all of it; the function returns (no overflow in the
  division) whenever every record has \<open>0 \<le> correct \<le> asked\<close>; and a word with
  \<open>asked = 0, correct = 0\<close> precedes a word with \<open>asked = 10, correct = 10\<close> in the
  result, given that rounding leaves the floats 0 and 1 as they are.
\<close>

theorem select_words_file_mode:
  assumes "vocab \<noteq> []"
  shows "(\<forall>out. select_words fl vocab memory None = Inr out \<longrightarrow>
            mset out = mset vocab
          \<and> sorted_wrt (\<lambda>x y. word_rate fl memory (fst x) \<ge> word_rate fl memory (fst y)) out)
    \<and> (\<forall>w. map_of memory w = None \<longrightarrow> word_rate fl memory w = fl 1)
    \<and> (\<forall>l>0. select_words fl vocab memory (Some l) =
          map_sum id (take (nat l)) (select_words fl vocab memory None))
    \<and> select_words fl vocab memory (Some 0) = select_words fl vocab memory None
    \<and> ((\<forall>st\<in>snd ` set memory. 0 \<le> correct st \<and> correct st \<le> asked st) \<longrightarrow>
          (\<exists>out. select_words fl vocab memory limit = Inr out))
    \<and> (\<forall>a b sa sb out. fl 0 = 0 \<and> fl 1 = 1
          \<and> map_of memory a = Some sa \<and> asked sa = 10 \<and> correct sa = 10
          \<and> map_of memory b = Some sb \<and> asked sb = 0 \<and> correct sb = 0
          \<and> a \<in> fst ` set vocab \<and> b \<in> fst ` set vocab
          \<and> select_words fl vocab memory None = Inr out \<longrightarrow>
          (\<exists>i j. i < j \<and> j < length out \<and> fst (out ! i) = b \<and> fst (out ! j) = a))"
proof (intro conjI allI impI)
  fix out
  assume o: "select_words fl vocab memory None = Inr out"
  let ?items = "map (\<lambda>(w, m). (word_rate fl memory w, w, m)) vocab"
  from select_words_file [OF assms o] have out: "out = map snd (sort_reverse ?items)" .
  have ms: "map snd ?items = vocab" by (induction vocab) auto
  have "mset out = image_mset snd (mset (sort_reverse ?items))"
    unfolding out by (simp only: mset_map)
  also have "\<dots> = image_mset snd (mset ?items)" by (simp only: mset_sort_reverse)
  also have "\<dots> = mset (map snd ?items)" by (simp only: mset_map)
  finally show "mset out = mset vocab" unfolding ms .
  have "\<forall>x\<in>set ?items. fst x = word_rate fl memory (fst (snd x))" by auto
  from sorted_out [where r = "\<lambda>x. word_rate fl memory (fst x)", OF this]
  show "sorted_wrt (\<lambda>x y. word_rate fl memory (fst x) \<ge> word_rate fl memory (fst y)) out"
    unfolding out .
next
  fix w
  assume "map_of memory w = None"
  then show "word_rate fl memory w = fl 1"
    by (simp add: word_rate_def error_rate_def one_minus_def)
next
  fix l :: int
  assume "0 < l"
  then show "select_words fl vocab memory (Some l) =
          map_sum id (take (nat l)) (select_words fl vocab memory None)"
    by (simp add: select_words_limit slice_to_def [abs_def])
next
  show "select_words fl vocab memory (Some 0) = select_words fl vocab memory None"
    by (simp add: select_words_limit)
next
  assume "\<forall>st\<in>snd ` set memory. 0 \<le> correct st \<and> correct st \<le> asked st"
  from file_items_total [OF this, of fl vocab]
  obtain items where "file_items fl vocab memory = Inr items" by blast
  with assms show "\<exists>out. select_words fl vocab memory limit = Inr out"
    by (simp add: select_words_def Let_def)
next
  fix a b sa sb out
  assume h: "fl 0 = 0 \<and> fl 1 = 1
          \<and> map_of memory a = Some sa \<and> asked sa = 10 \<and> correct sa = 10
          \<and> map_of memory b = Some sb \<and> asked sb = 0 \<and> correct sb = 0
          \<and> a \<in> fst ` set vocab \<and> b \<in> fst ` set vocab
          \<and> select_words fl vocab memory None = Inr out"
  let ?r = "\<lambda>x::str \<times> str. word_rate fl memory (fst x)"
  let ?items = "map (\<lambda>(w, m). (word_rate fl memory w, w, m)) vocab"
  from h have o: "select_words fl vocab memory None = Inr out" by simp
  from select_words_file [OF assms o] have out: "out = map snd (sort_reverse ?items)" .
  have so: "sorted_wrt (\<lambda>x y. ?r x \<ge> ?r y) out"
    unfolding out by (rule sorted_out) auto
  have "set out = snd ` set ?items" unfolding out by (simp add: sort_reverse_def)
  also have "\<dots> = set vocab" by force
  finally have so_set: "set out = set vocab" .
  from h obtain ma mb where ab: "(a, ma) \<in> set out" "(b, mb) \<in> set out"
    unfolding so_set by auto
  from h have ra: "word_rate fl memory a = 0"
    by (simp add: word_rate_def error_rate_def one_minus_def)
  from h have rb: "word_rate fl memory b = 1"
    by (simp add: word_rate_def error_rate_def one_minus_def)
  from earlier_in_sorted [OF so ab] ra rb
  obtain i j where "i < j" "j < length out" "out ! i = (b, mb)" "out ! j = (a, ma)" by auto
  then have "i < j \<and> j < length out \<and> fst (out ! i) = b \<and> fst (out ! j) = a" by simp
  then show "\<exists>i j. i < j \<and> j < length out \<and> fst (out ! i) = b \<and> fst (out ! j) = a" by blast
qed


lemmas select_eval = select_words_def sort_reverse_def slice_to_def int_truediv_unit
  one_minus_def default_stats_def Let_def

text \<open>
  Claim C2 does not hold as stated: the truncation is guarded by \<open>if limit\<close>, which is
  false of the limit 0, so with the limit 0 the whole list is returned, not its first 0
  items. (The rounding is instantiated with the identity; the only rate computed here is
  \<open>1.0 - 0\<close>, which is exact.)
\<close>

theorem limit_zero_counterexample:
  "select_words (\<lambda>x. x) [(lit ''A'', lit ''m1''), (lit ''B'', lit ''m2'')] [] (Some 0)
     = Inr [(lit ''A'', lit ''m1''), (lit ''B'', lit ''m2'')]
   \<and> take 0 [(lit ''A'', lit ''m1''), (lit ''B'', lit ''m2'')] = []"
  by (simp add: select_eval)

lemma sample_file_mode:
  "select_words (\<lambda>x. x) sample_vocab sample_history None
     = Inr [(lit ''B'', lit ''m2''), (lit ''C'', lit ''m3''), (lit ''A'', lit ''m1'')]"
  by (simp add: sample_vocab_def sample_history_def select_eval lit_def)

theorem select_words_file_mode_witness:
  "sample_vocab \<noteq> []
   \<and> map_of sample_history (lit ''A'') = Some \<lparr>asked = 10, correct = 10, meaning = Some (lit ''m1'')\<rparr>
   \<and> map_of sample_history (lit ''B'') = Some \<lparr>asked = 0, correct = 0, meaning = None\<rparr>
   \<and> select_words (\<lambda>x. x) sample_vocab sample_history None
        = Inr [(lit ''B'', lit ''m2''), (lit ''C'', lit ''m3''), (lit ''A'', lit ''m1'')]
   \<and> select_words (\<lambda>x. x) sample_vocab sample_history (Some 2)
        = Inr [(lit ''B'', lit ''m2''), (lit ''C'', lit ''m3'')]
   \<and> (\<exists>i j. i < j \<and> j < length [(lit ''B'', lit ''m2''), (lit ''C'', lit ''m3''), (lit ''A'', lit ''m1'')]
          \<and> fst ([(lit ''B'', lit ''m2''), (lit ''C'', lit ''m3''), (lit ''A'', lit ''m1'')] ! i) = lit ''B''
          \<and> fst ([(lit ''B'', lit ''m2''), (lit ''C'', lit ''m3''), (lit ''A'', lit ''m1'')] ! j) = lit ''A'')"
proof -
  let ?out = "[(lit ''B'', lit ''m2''), (lit ''C'', lit ''m3''), (lit ''A'', lit ''m1'')]"
  have v: "sample_vocab \<noteq> []" by (simp add: sample_vocab_def)
  have a: "map_of sample_history (lit ''A'')
      = Some \<lparr>asked = 10, correct = 10, meaning = Some (lit ''m1'')\<rparr>"
    by (simp add: sample_history_def lit_def)
  have b: "map_of sample_history (lit ''B'') = Some \<lparr>asked = 0, correct = 0, meaning = None\<rparr>"
    by (simp add: sample_history_def lit_def)
  have m: "lit ''A'' \<in> fst ` set sample_vocab" "lit ''B'' \<in> fst ` set sample_vocab"
    by (simp_all add: sample_vocab_def)
  note r = select_words_file_mode [OF v, of "\<lambda>x. x" sample_history]
  from r [THEN conjunct2, THEN conjunct2, THEN conjunct1]
  have "\<forall>l>0. select_words (\<lambda>x. x) sample_vocab sample_history (Some l) =
          map_sum id (take (nat l)) (select_words (\<lambda>x. x) sample_vocab sample_history None)" .
  then have two: "select_words (\<lambda>x. x) sample_vocab sample_history (Some 2)
        = Inr [(lit ''B'', lit ''m2''), (lit ''C'', lit ''m3'')]"
    by (simp add: sample_file_mode)
  from r [THEN conjunct2, THEN conjunct2, THEN conjunct2, THEN conjunct2, THEN conjunct2]
  have "\<forall>a b sa sb out. (\<lambda>x. x) 0 = (0::real) \<and> (\<lambda>x. x) 1 = (1::real)
          \<and> map_of sample_history a = Some sa \<and> asked sa = 10 \<and> correct sa = 10
          \<and> map_of sample_history b = Some sb \<and> asked sb = 0 \<and> correct sb = 0
          \<and> a \<in> fst ` set sample_vocab \<and> b \<in> fst ` set sample_vocab
          \<and> select_words (\<lambda>x. x) sample_vocab sample_history None = Inr out \<longrightarrow>
          (\<exists>i j. i < j \<and> j < length out \<and> fst (out ! i) = b \<and> fst (out ! j) = a)" .
  from this [rule_format, of "lit ''A''" _ "lit ''B''" _ ?out] a b m sample_file_mode
  have "\<exists>i j. i < j \<and> j < length ?out \<and> fst (?out ! i) = lit ''B'' \<and> fst (?out ! j) = lit ''A''"
    by simp
  with v a b two sample_file_mode show ?thesis by blast
qed

lemma select_words_memory:
  assumes "select_words fl [] memory None = Inr out"
  shows "out = map snd (sort_reverse
           (map (\<lambda>(w, st). (error_rate fl (asked st) (correct st), w,
                          (case meaning st of None \<Rightarrow> [] | Some m \<Rightarrow> m)))
                (filter (\<lambda>(w, st). asked st > 0 \<and> correct st < asked st) memory)))"
proof -
  from assms obtain items where i: "memory_items fl memory = Inr items"
    and o: "out = map snd (sort_reverse items)"
    by (auto simp: select_words_def Let_def split: sum.splits)
  from memory_items_Inr [OF i] o show ?thesis by simp
qed

text \<open>
  Claim C4. With an empty vocabulary and no limit, on a memory with distinct keys: when
  \<open>select_words\<close> returns, its result has exactly the words whose record has
  \<open>asked > 0\<close> and \<open>correct < asked\<close>, each with the meaning of its record (the empty
  string when the record has none), and is sorted descending by the error rate of the
  words, which for a record with \<open>asked > 0\<close> is \<open>1 - correct/asked\<close> in float
  arithmetic; a word whose record has \<open>asked = 5, correct = 5\<close> is not in the result;
  and the function returns whenever no record has a negative \<open>correct\<close>.
\<close>

theorem select_words_memory_mode:
  assumes "distinct (map fst memory)"
  shows "(\<forall>out. select_words fl [] memory None = Inr out \<longrightarrow>
            mset out = mset (map (\<lambda>(w, st). (w, case meaning st of None \<Rightarrow> [] | Some m \<Rightarrow> m))
                          (filter (\<lambda>(w, st). asked st > 0 \<and> correct st < asked st) memory))
          \<and> sorted_wrt (\<lambda>x y. word_rate fl memory (fst x) \<ge> word_rate fl memory (fst y)) out
          \<and> (\<forall>w st. (w, st) \<in> set memory \<and> asked st = 5 \<and> correct st = 5
                \<longrightarrow> w \<notin> fst ` set out))
    \<and> (\<forall>w st. (w, st) \<in> set memory \<and> asked st > 0 \<longrightarrow>
          word_rate fl memory w
            = fl (1 - fl (real_of_int (correct st) / real_of_int (asked st))))
    \<and> ((\<forall>st\<in>snd ` set memory. 0 \<le> correct st) \<longrightarrow>
          (\<exists>out. select_words fl [] memory None = Inr out))"
proof (intro conjI allI impI)
  fix out
  assume o: "select_words fl [] memory None = Inr out"
  let ?sel = "filter (\<lambda>(w, st). asked st > 0 \<and> correct st < asked st) memory"
  let ?f = "\<lambda>(w, st). (error_rate fl (asked st) (correct st), w,
                          (case meaning st of None \<Rightarrow> [] | Some m \<Rightarrow> m))"
  let ?g = "\<lambda>(w, st). (w, case meaning st of None \<Rightarrow> [] | Some m \<Rightarrow> m)"
  let ?items = "map ?f ?sel"
  from select_words_memory [OF o] have out: "out = map snd (sort_reverse ?items)" .
  have ms: "map snd ?items = map ?g ?sel" by (induction memory) auto
  have "mset out = image_mset snd (mset (sort_reverse ?items))"
    unfolding out by (simp only: mset_map)
  also have "\<dots> = image_mset snd (mset ?items)" by (simp only: mset_sort_reverse)
  also have "\<dots> = mset (map snd ?items)" by (simp only: mset_map)
  finally show "mset out = mset (map ?g ?sel)" unfolding ms .
  have rate: "fst x = word_rate fl memory (fst (snd x))" if "x \<in> set ?items" for x
  proof -
    from that obtain w st where ws: "(w, st) \<in> set memory" "x = ?f (w, st)" by auto
    from assms ws(1) have "map_of memory w = Some st" by simp
    with ws(2) show ?thesis by (simp add: word_rate_def)
  qed
  then have "\<forall>x\<in>set ?items. fst x = word_rate fl memory (fst (snd x))" by blast
  from sorted_out [where r = "\<lambda>x. word_rate fl memory (fst x)", OF this]
  show "sorted_wrt (\<lambda>x y. word_rate fl memory (fst x) \<ge> word_rate fl memory (fst y)) out"
    unfolding out .
  fix w st
  assume h: "(w, st) \<in> set memory \<and> asked st = 5 \<and> correct st = 5"
  show "w \<notin> fst ` set out"
  proof
    assume "w \<in> fst ` set out"
    then have "w \<in> fst ` snd ` set ?items" unfolding out by (simp add: sort_reverse_def)
    then obtain st' where s: "(w, st') \<in> set memory" "asked st' > 0 \<and> correct st' < asked st'"
      by auto
    from assms s(1) h have "st' = st" by (metis map_of_is_SomeI option.inject)
    with s(2) h show False by simp
  qed
next
  fix w st
  assume h: "(w, st) \<in> set memory \<and> asked st > 0"
  with assms have "map_of memory w = Some st" by simp
  with h show "word_rate fl memory w
            = fl (1 - fl (real_of_int (correct st) / real_of_int (asked st)))"
    by (simp add: word_rate_def error_rate_def one_minus_def)
next
  assume "\<forall>st\<in>snd ` set memory. 0 \<le> correct st"
  from memory_items_total [OF this, of fl]
  obtain items where "memory_items fl memory = Inr items" by blast
  then show "\<exists>out. select_words fl [] memory None = Inr out"
    by (simp add: select_words_def Let_def)
qed

lemma sample_memory_mode:
  "select_words (\<lambda>x. x) [] sample_history None = Inr [(lit ''C'', [])]"
  by (simp add: sample_history_def select_eval)

theorem select_words_memory_mode_witness:
  "distinct (map fst sample_history)
   \<and> select_words (\<lambda>x. x) [] sample_history None = Inr [(lit ''C'', [])]
   \<and> (lit ''D'', \<lparr>asked = 5, correct = 5, meaning = Some (lit ''m4'')\<rparr>) \<in> set sample_history
   \<and> lit ''D'' \<notin> fst ` set [(lit ''C'', [])]"
proof -
  have d: "distinct (map fst sample_history)" by (simp add: sample_history_def lit_def)
  have i: "(lit ''D'', \<lparr>asked = 5, correct = 5, meaning = Some (lit ''m4'')\<rparr>) \<in> set sample_history"
    by (simp add: sample_history_def)
  note r = select_words_memory_mode [OF d, of "\<lambda>x. x", THEN conjunct1, rule_format,
      OF sample_memory_mode, THEN conjunct2, THEN conjunct2, rule_format]
  from r [of "lit ''D''" "\<lparr>asked = 5, correct = 5, meaning = Some (lit ''m4'')\<rparr>"] i
  have "lit ''D'' \<notin> fst ` set [(lit ''C'', [])]" by simp
  with d i sample_memory_mode show ?thesis by blast
qed

end
